theory Spec2Isabelle
  imports Main "HOL-Library.Sublist"
begin

section \<open>The \<open>workspaces foreach\<close> command\<close>

text \<open>
  A shallow embedding of the command's \<open>action\<close> and of its helpers
  \<open>getWorkspaceChildrenRecursive\<close>, \<open>runCommand\<close>, \<open>createStream\<close> and \<open>getPrefix\<close>.
  Collaborators that live in other packages (the project and its resolver, the command
  line parser, the command executor, the pretty printers) are fields of the record
  \<open>World\<close>; the report sink is the list of entries written to it.
\<close>

subsection \<open>Data model\<close>

type_synonym PortablePath = string
type_synonym LocatorHash = string
type_synonym DescriptorHash = string
type_synonym IdentHash = string

text \<open>Only the fields the command reads are kept.\<close>

record Locator =
  name :: string
  locatorHash :: LocatorHash

record Descriptor =
  range :: string
  descriptorHash :: DescriptorHash

text \<open>
  \<open>scripts\<close>, \<open>dependencies\<close> and \<open>devDependencies\<close> are JavaScript maps; the command
  only asks \<open>scripts.has\<close> and iterates over the entries of the other two, so they are
  kept as the list of script names and as entry lists in iteration order.
\<close>

record Manifest =
  scripts :: "string list"
  dependencies :: "(IdentHash \<times> Descriptor) list"
  devDependencies :: "(IdentHash \<times> Descriptor) list"

record Workspace =
  cwd :: PortablePath
  locator :: Locator
  anchoredLocator :: Locator
  anchoredDescriptor :: Descriptor
  manifest :: Manifest
  workspacesCwds :: "PortablePath list"

record Project =
  workspacesByCwd :: "PortablePath \<rightharpoonup> Workspace"
  topLevelWorkspace :: Workspace
  findWorkspacesByDescriptor :: "Descriptor \<Rightarrow> Workspace list"

text \<open>
  \<open>jobs\<close> is \<open>None\<close> when the flag is absent (\<open>undefined\<close>); it only sets the size of
  the admission gate \<open>pLimit(jobs || concurrency)\<close>. The fields \<open>include\<close> and \<open>exclude\<close> of
  the source are \<open>include_names\<close> and \<open>exclude_names\<close> here.
\<close>

record ForeachOptions =
  command :: string
  rest :: "string list"
  exclude_names :: "string list"
  include_names :: "string list"
  all :: bool
  interlaced :: bool
  jobs :: "nat option"
  parallel :: bool
  topologicalDev :: bool
  topological :: bool
  verbose :: bool

datatype Error =
    WorkspaceRequiredError
  | UsageError
  | TypeError
  | RangeError
  | ExecutorError string

text \<open>
  What the executor \<open>clipanion.run\<close> does with one workspace: it resolves to an exit code
  (\<open>None\<close> is \<open>undefined\<close>) or it rejects. The two booleans are the values the promises
  \<open>stdoutEnd\<close> and \<open>stderrEnd\<close> resolve to once the streams have finished.
\<close>

datatype ExecResult =
    Resolved "int option" bool bool
  | Rejected string

text \<open>
  The environment of one invocation. \<open>cwdWorkspace\<close> is the workspace \<open>Project.find\<close>
  returns for the current directory, \<open>None\<close> when there is none. \<open>parse\<close> is
  \<open>clipanion.parse\<close> and yields \<open>commandPath\<close> and \<open>env.args\<close>. \<open>run\<close> is the executor;
  what it does with a workspace is taken to depend on the workspace alone. \<open>stackDepth\<close>
  is the number of nested calls the runtime allows to \<open>getWorkspaceChildrenRecursive\<close>.
\<close>

record World =
  project :: Project
  cwdWorkspace :: "Workspace option"
  parse :: "string list \<Rightarrow> string list \<times> string list"
  npm_lifecycle_event :: "string option"
  run :: "Workspace \<Rightarrow> ExecResult"
  prettyLocator :: "Locator \<Rightarrow> string"
  stringifyIdent :: "Locator \<Rightarrow> string"
  format :: "string \<Rightarrow> string \<Rightarrow> string"
  stackDepth :: nat

subsection \<open>Candidate selection\<close>

text \<open>
  The recursive walk over the declared child workspaces. The first argument bounds the
  depth of the recursion: \<open>None\<close> is the stack overflow of a walk that never ends.
\<close>

fun getWorkspaceChildrenRecursive :: "nat \<Rightarrow> Workspace \<Rightarrow> Project \<Rightarrow> Workspace list option"
  and childrenLoop :: "nat \<Rightarrow> PortablePath list \<Rightarrow> Project \<Rightarrow> Workspace list option"
where
  "getWorkspaceChildrenRecursive 0 rootWorkspace proj = None"
| "getWorkspaceChildrenRecursive (Suc n) rootWorkspace proj =
     childrenLoop n (workspacesCwds rootWorkspace) proj"
| "childrenLoop n [] proj = Some []"
| "childrenLoop n (childWorkspaceCwd # cwds) proj =
     (case workspacesByCwd proj childWorkspaceCwd of
        None \<Rightarrow> childrenLoop n cwds proj
      | Some childWorkspace \<Rightarrow>
          (case getWorkspaceChildrenRecursive n childWorkspace proj of
             None \<Rightarrow> None
           | Some below \<Rightarrow>
               (case childrenLoop n cwds proj of
                  None \<Rightarrow> None
                | Some later \<Rightarrow> Some (childWorkspace # below @ later))))"

text \<open>JavaScript truthiness of a \<open>string | null\<close> and the operator \<open>||\<close> on it.\<close>

definition truthy :: "string option \<Rightarrow> bool" where
  "truthy s = (case s of None \<Rightarrow> False | Some v \<Rightarrow> v \<noteq> [])"

definition orElse :: "string option \<Rightarrow> string \<Rightarrow> string" where
  "orElse s d = (case s of None \<Rightarrow> d | Some v \<Rightarrow> if v = [] then d else v)"

definition getScriptName :: "string list \<Rightarrow> string list \<Rightarrow> string option" where
  "getScriptName commandPath args =
     (if length commandPath = 1 \<and> hd commandPath = ''run'' \<and> length args > 0
      then Some (hd args) else None)"

text \<open>\<open>scriptName && !workspace.manifest.scripts.has(scriptName)\<close>\<close>

definition lacksScript :: "string option \<Rightarrow> Workspace \<Rightarrow> bool" where
  "lacksScript scriptName workspace =
     (case scriptName of
        None \<Rightarrow> False
      | Some s \<Rightarrow> truthy scriptName \<and> s \<notin> set (scripts (manifest workspace)))"

text \<open>
  The guard against a script that calls the command on itself:
  \<open>(scriptName || command) === process.env.npm_lifecycle_event &&
   workspace.cwd === cwdWorkspace!.cwd\<close>.
  The right operand of \<open>&&\<close> is only evaluated when the left one holds, and reading
  \<open>.cwd\<close> of an absent \<open>cwdWorkspace\<close> raises a \<open>TypeError\<close>.
\<close>

definition selfGuard :: "ForeachOptions \<Rightarrow> World \<Rightarrow> string option \<Rightarrow> Workspace \<Rightarrow> Error + bool" where
  "selfGuard opts world scriptName workspace =
     (if Some (orElse scriptName (command opts)) = npm_lifecycle_event world
      then (case cwdWorkspace world of
              None \<Rightarrow> Inl TypeError
            | Some cw \<Rightarrow> Inr (cwd workspace = cwd cw))
      else Inr False)"

definition notIncluded :: "ForeachOptions \<Rightarrow> Workspace \<Rightarrow> bool" where
  "notIncluded opts workspace =
     (length (include_names opts) > 0 \<and> name (locator workspace) \<notin> set (include_names opts))"

definition excluded :: "ForeachOptions \<Rightarrow> Workspace \<Rightarrow> bool" where
  "excluded opts workspace =
     (length (exclude_names opts) > 0 \<and> name (locator workspace) \<in> set (exclude_names opts))"

text \<open>The loop over \<open>candidates\<close>; the accumulator is the array \<open>workspaces\<close>.\<close>

fun selectLoop ::
  "ForeachOptions \<Rightarrow> World \<Rightarrow> string option \<Rightarrow> Workspace list \<Rightarrow> Workspace list
     \<Rightarrow> Error + Workspace list"
where
  "selectLoop opts world scriptName workspaces [] = Inr workspaces"
| "selectLoop opts world scriptName workspaces (workspace # candidates) =
     (if lacksScript scriptName workspace
      then selectLoop opts world scriptName workspaces candidates
      else (case selfGuard opts world scriptName workspace of
              Inl err \<Rightarrow> Inl err
            | Inr isSelf \<Rightarrow>
                if isSelf then selectLoop opts world scriptName workspaces candidates
                else if notIncluded opts workspace
                then selectLoop opts world scriptName workspaces candidates
                else if excluded opts workspace
                then selectLoop opts world scriptName workspaces candidates
                else selectLoop opts world scriptName (workspaces @ [workspace]) candidates))"

subsection \<open>The report sink\<close>

datatype MessageName = CYCLIC_DEPENDENCIES | UNNAMED

text \<open>
  What the command writes to the report. \<open>ReportInfoNoOutput linePrefix code\<close> is the line
  \<open><prefix> Process exited without output (exit code <exitCode>)\<close>.
\<close>

datatype ReportEntry =
    ReportError MessageName string
  | ReportInfoNoOutput "string option" int
  | ReportSeparator

fun isError :: "ReportEntry \<Rightarrow> bool" where
  "isError (ReportError m text) = True"
| "isError (ReportInfoNoOutput linePrefix code) = False"
| "isError ReportSeparator = False"

text \<open>
  Modelled from the spec: \<open>hasErrors\<close> of the report sink (class \<open>StreamReport\<close>, package
  \<open>@berry/core\<close>, not among the sources). The sink "tracks whether any error occurred".
\<close>

definition hasErrors :: "ReportEntry list \<Rightarrow> bool" where
  "hasErrors report = list_ex isError report"

text \<open>
  Modelled from the spec: \<open>exitCode\<close> of the report sink (class \<open>StreamReport\<close>, package
  \<open>@berry/core\<close>, not among the sources). The sink "yields a final process exit code",
  which is non-zero if an error was reported; the value 1 stands for non-zero.
\<close>

definition exitCode :: "ReportEntry list \<Rightarrow> int" where
  "exitCode report = (if hasErrors report then 1 else 0)"

definition reportError :: "ReportEntry list \<Rightarrow> MessageName \<Rightarrow> string \<Rightarrow> ReportEntry list" where
  "reportError report m text = report @ [ReportError m text]"

subsection \<open>Running one command\<close>

datatype StreamId = Stdout | Stderr

datatype Stream = DefaultStream "string option" | BufferStream "string option"

text \<open>
  What \<open>runCommand\<close> does with the two streams of a task, in order: creating them,
  handing them to the executor, \<open>stream.end()\<close> and \<open>await streamEnd\<close>.
\<close>

datatype TaskEvent =
    Created StreamId Stream
  | Executed
  | Ended StreamId
  | Awaited StreamId

record TaskRecord =
  task_workspace :: Workspace
  commandIndex :: nat
  events :: "TaskEvent list"
  outcome :: "Error + int"

definition createStream :: "string option \<Rightarrow> bool \<Rightarrow> Stream" where
  "createStream linePrefix interlaced_flag =
     (if interlaced_flag then DefaultStream linePrefix else BufferStream linePrefix)"

definition colors :: "string list" where
  "colors = [''#2E86AB'', ''#A23B72'', ''#F18F01'', ''#C73E1D'', ''#CCE2A3'']"

definition getPrefix :: "World \<Rightarrow> Workspace \<Rightarrow> bool \<Rightarrow> nat \<Rightarrow> string option" where
  "getPrefix world workspace verbose_flag index =
     (if \<not> verbose_flag then None
      else Some (format world (''['' @ stringifyIdent world (locator workspace) @ '']:'')
                   (colors ! (index mod length colors))))"

text \<open>
  \<open>runCommand\<close> returns the record of the task and the report as the task leaves it. An
  exit code of \<open>undefined\<close> counts as 0 (\<open>|| 0\<close>). The \<open>catch\<close> block ends and awaits
  both streams and throws the error again.
\<close>

definition runCommand ::
  "ForeachOptions \<Rightarrow> World \<Rightarrow> ReportEntry list \<Rightarrow> Workspace \<Rightarrow> nat
     \<Rightarrow> TaskRecord \<times> ReportEntry list"
where
  "runCommand opts world report workspace index =
     (let report1 = (if \<not> parallel opts \<and> verbose opts \<and> index > 1
                     then report @ [ReportSeparator] else report);
          linePrefix = getPrefix world workspace (verbose opts) index;
          stdout = createStream linePrefix (interlaced opts);
          stderr = createStream linePrefix (interlaced opts);
          started = [Created Stdout stdout, Created Stderr stderr, Executed]
      in case run world workspace of
           Resolved code emptyStdout emptyStderr \<Rightarrow>
             (let exit = (case code of None \<Rightarrow> 0 | Some c \<Rightarrow> c)
              in (\<lparr>task_workspace = workspace, commandIndex = index,
                   events = started @ [Ended Stdout, Ended Stderr, Awaited Stdout, Awaited Stderr],
                   outcome = Inr exit\<rparr>,
                  if verbose opts \<and> emptyStdout \<and> emptyStderr
                  then report1 @ [ReportInfoNoOutput linePrefix exit] else report1))
         | Rejected err \<Rightarrow>
             (\<lparr>task_workspace = workspace, commandIndex = index,
               events = started @ [Ended Stdout, Ended Stderr, Awaited Stdout, Awaited Stderr],
               outcome = Inl (ExecutorError err)\<rparr>,
              report1))"

subsection \<open>The scheduler\<close>

text \<open>
  \<open>needsProcessing\<close> is a JavaScript \<open>Map\<close>: its entries in insertion order, one per key.
  \<open>set\<close> on a key that is present replaces the value in place.
\<close>

type_synonym PendingMap = "(LocatorHash \<times> Workspace) list"

fun Map_set :: "PendingMap \<Rightarrow> LocatorHash \<Rightarrow> Workspace \<Rightarrow> PendingMap" where
  "Map_set [] k v = [(k, v)]"
| "Map_set ((k', v') # m) k v = (if k' = k then (k, v) # m else (k', v') # Map_set m k v)"

definition Map_has :: "PendingMap \<Rightarrow> LocatorHash \<Rightarrow> bool" where
  "Map_has m k = list_ex (\<lambda>e. fst e = k) m"

definition Map_delete :: "PendingMap \<Rightarrow> LocatorHash \<Rightarrow> PendingMap" where
  "Map_delete m k = filter (\<lambda>e. fst e \<noteq> k) m"

record SchedState =
  needsProcessing :: PendingMap
  processing :: "DescriptorHash set"
  commandCount :: nat
  report :: "ReportEntry list"
  tasks :: "TaskRecord list"

definition initState :: SchedState where
  "initState = \<lparr>needsProcessing = [], processing = {}, commandCount = 0, report = [], tasks = []\<rparr>"

text \<open>The seeding loop \<open>for (const workspace of workspaces) needsProcessing.set(...)\<close>.\<close>

fun seed :: "PendingMap \<Rightarrow> Workspace list \<Rightarrow> PendingMap" where
  "seed m [] = m"
| "seed m (workspace # workspaces) =
     seed (Map_set m (locatorHash (anchoredLocator workspace)) workspace) workspaces"

definition resolvedSet :: "ForeachOptions \<Rightarrow> Workspace \<Rightarrow> (IdentHash \<times> Descriptor) list" where
  "resolvedSet opts workspace =
     (if topologicalDev opts
      then dependencies (manifest workspace) @ devDependencies (manifest workspace)
      else dependencies (manifest workspace))"

text \<open>The loop over \<open>resolvedSet\<close>, which leaves at the first descriptor that blocks.\<close>

fun resolvedLoop :: "PendingMap \<Rightarrow> Project \<Rightarrow> (IdentHash \<times> Descriptor) list \<Rightarrow> bool" where
  "resolvedLoop pending proj [] = True"
| "resolvedLoop pending proj ((identHash, descriptor) # others) =
     (let workspaces = findWorkspacesByDescriptor proj descriptor;
          isRunnable = \<not> list_ex (\<lambda>w. Map_has pending (locatorHash (anchoredLocator w))) workspaces
      in if \<not> isRunnable then False else resolvedLoop pending proj others)"

definition isRunnable :: "ForeachOptions \<Rightarrow> Project \<Rightarrow> PendingMap \<Rightarrow> Workspace \<Rightarrow> bool" where
  "isRunnable opts proj pending workspace =
     (if topological opts \<or> topologicalDev opts
      then resolvedLoop pending proj (resolvedSet opts workspace)
      else True)"

text \<open>
  One scan of the pending map. Nothing is removed from \<open>needsProcessing\<close> before the scan
  is over (a task deletes its entry after an \<open>await\<close>), so the map \<open>pending\<close> is fixed
  while its entries are visited. The result is the list of dispatched entries
  (\<open>commandPromises\<close>) and the processing set.
\<close>

fun scan ::
  "ForeachOptions \<Rightarrow> Project \<Rightarrow> PendingMap \<Rightarrow> DescriptorHash set \<Rightarrow> PendingMap
     \<Rightarrow> PendingMap \<times> DescriptorHash set"
where
  "scan opts proj pending busy [] = ([], busy)"
| "scan opts proj pending busy ((identHash, workspace) # entries) =
     (if descriptorHash (anchoredDescriptor workspace) \<in> busy
      then scan opts proj pending busy entries
      else if \<not> isRunnable opts proj pending workspace
      then scan opts proj pending busy entries
      else if \<not> parallel opts
      then ([(identHash, workspace)], insert (descriptorHash (anchoredDescriptor workspace)) busy)
      else (case scan opts proj pending
                   (insert (descriptorHash (anchoredDescriptor workspace)) busy) entries of
              (commandPromises, busy') \<Rightarrow> ((identHash, workspace) # commandPromises, busy')))"

text \<open>
  \<open>await Promise.all(commandPromises)\<close>. Every dispatched task has been handed to the
  admission gate \<open>limit\<close> during the scan, and the gate only delays its start: every task
  of the round runs and settles, whether or not another one rejects, since \<open>Promise.all\<close>
  cancels nothing. The tasks are recorded here in dispatch order, each numbered by
  \<open>++commandCount\<close>. A task that resolves deletes its entries; a task that rejects leaves
  them, since the \<open>await\<close> of \<open>runCommand\<close> throws before the two \<open>delete\<close>. The round
  resolves to the exit codes when every task resolves. It rejects when some task rejects,
  with the rejection that comes first; in the order of the record that is the one of the
  first task that rejects. The state is the one all tasks of the round leave behind, also
  those that settle after the rejection has left the round.
\<close>

fun awaitAll ::
  "ForeachOptions \<Rightarrow> World \<Rightarrow> SchedState \<Rightarrow> PendingMap \<Rightarrow> (Error + int list) \<times> SchedState"
where
  "awaitAll opts world st [] = (Inr [], st)"
| "awaitAll opts world st ((identHash, workspace) # commandPromises) =
     (let index = Suc (commandCount st);
          (task, report') = runCommand opts world (report st) workspace index;
          st1 = st\<lparr>commandCount := index, report := report', tasks := tasks st @ [task]\<rparr>
      in case outcome task of
           Inl err \<Rightarrow>
             (case awaitAll opts world st1 commandPromises of
                (others, st3) \<Rightarrow> (Inl err, st3))
         | Inr exit \<Rightarrow>
             (let st2 = st1\<lparr>needsProcessing := Map_delete (needsProcessing st1) identHash,
                            processing := processing st1
                              - {descriptorHash (anchoredDescriptor workspace)}\<rparr>
              in case awaitAll opts world st2 commandPromises of
                   (Inl err, st3) \<Rightarrow> (Inl err, st3)
                 | (Inr exitCodes, st3) \<Rightarrow> (Inr (exit # exitCodes), st3)))"

fun join :: "string \<Rightarrow> string list \<Rightarrow> string" where
  "join sep [] = []"
| "join sep [x] = x"
| "join sep (x # y # others) = x @ sep @ join sep (y # others)"

definition cycleMessage :: "World \<Rightarrow> PendingMap \<Rightarrow> string" where
  "cycleMessage world pending =
     ''Dependency cycle detected ('' @
       join '', '' (map (\<lambda>workspace. prettyLocator world (anchoredLocator workspace)) (map snd pending))
       @ '')''"

definition failedMessage :: string where
  "failedMessage = ''The command failed for workspaces that are depended upon by other workspaces; can't satisfy the dependency graph''"

text \<open>Every round that awaits its tasks takes at least one entry out of the pending map.\<close>

lemma scan_subset:
  "scan opts proj pending busy es = (cps, busy') \<Longrightarrow> set cps \<subseteq> set es"
proof (induction es arbitrary: busy cps busy')
  case Nil
  then show ?case by simp
next
  case (Cons e es)
  obtain k w where e: "e = (k, w)" by (cases e)
  show ?case using Cons.prems unfolding e
    by (auto split: if_splits prod.splits dest!: Cons.IH)
qed

lemma awaitAll_needsProcessing:
  "awaitAll opts world st cps = (Inr codes, st') \<Longrightarrow>
     needsProcessing st' = foldl Map_delete (needsProcessing st) (map fst cps)"
proof (induction cps arbitrary: st codes st')
  case Nil
  then show ?case by simp
next
  case (Cons e cps)
  obtain k w where e: "e = (k, w)" by (cases e)
  show ?case using Cons.prems unfolding e
    by (auto simp: Let_def split: prod.splits sum.splits dest!: Cons.IH)
qed

lemma length_Map_delete_le: "length (Map_delete m k) \<le> length m"
  by (simp add: Map_delete_def)

lemma length_foldl_Map_delete_le: "length (foldl Map_delete m ks) \<le> length m"
proof (induction ks arbitrary: m)
  case Nil
  then show ?case by simp
next
  case (Cons k ks)
  have "length (foldl Map_delete (Map_delete m k) ks) \<le> length (Map_delete m k)"
    by (rule Cons.IH)
  also have "\<dots> \<le> length m" by (rule length_Map_delete_le)
  finally show ?case by simp
qed

lemma length_Map_delete_less:
  "k \<in> fst ` set m \<Longrightarrow> length (Map_delete m k) < length m"
  unfolding Map_delete_def
  by (auto intro: length_filter_less)

lemma length_foldl_Map_delete_less:
  assumes "ks \<noteq> []" and "set ks \<subseteq> fst ` set m"
  shows "length (foldl Map_delete m ks) < length m"
proof -
  obtain k ks' where ks: "ks = k # ks'" using assms(1) by (cases ks) auto
  have "length (foldl Map_delete (Map_delete m k) ks') \<le> length (Map_delete m k)"
    by (rule length_foldl_Map_delete_le)
  also have "\<dots> < length m" using assms(2) ks by (intro length_Map_delete_less) auto
  finally show ?thesis by (simp add: ks)
qed

lemma round_decreases:
  assumes "scan opts proj (needsProcessing st) (processing st) (needsProcessing st) = (cps, busy)"
    and "cps \<noteq> []"
    and "awaitAll opts world (st\<lparr>processing := busy\<rparr>) cps = (Inr codes, st')"
  shows "length (needsProcessing st') < length (needsProcessing st)"
proof -
  have sub: "set cps \<subseteq> set (needsProcessing st)"
    using assms(1) by (rule scan_subset)
  have "needsProcessing st' = foldl Map_delete (needsProcessing st) (map fst cps)"
    using awaitAll_needsProcessing[OF assms(3)] by simp
  moreover have "length (foldl Map_delete (needsProcessing st) (map fst cps))
      < length (needsProcessing st)"
    using sub assms(2) by (intro length_foldl_Map_delete_less) auto
  ultimately show ?thesis by simp
qed

text \<open>
  The body of the loop \<open>while (needsProcessing.size > 0)\<close>: one round. It leaves the loop
  (\<open>break\<close>), returns from the callback, throws, or goes on to the next round.
\<close>

datatype Step =
    Break SchedState
  | Return SchedState
  | Throw Error SchedState
  | Continue SchedState

definition whileBody :: "ForeachOptions \<Rightarrow> World \<Rightarrow> SchedState \<Rightarrow> Step" where
  "whileBody opts world st =
     (if hasErrors (report st) then Break st
      else (case scan opts (project world) (needsProcessing st) (processing st) (needsProcessing st) of
              (commandPromises, busy) \<Rightarrow>
                if length commandPromises = 0
                then Return (st\<lparr>report := reportError (report st) CYCLIC_DEPENDENCIES
                                             (cycleMessage world (needsProcessing st))\<rparr>)
                else (case awaitAll opts world (st\<lparr>processing := busy\<rparr>) commandPromises of
                        (Inl err, st') \<Rightarrow> Throw err st'
                      | (Inr exitCodes, st') \<Rightarrow>
                          Continue
                            (if (topological opts \<or> topologicalDev opts)
                                \<and> list_ex (\<lambda>code. code \<noteq> 0) exitCodes
                             then st'\<lparr>report := reportError (report st') UNNAMED failedMessage\<rparr>
                             else st'))))"

lemma whileBody_decreases:
  assumes "whileBody opts world st = Continue st'"
  shows "length (needsProcessing st') < length (needsProcessing st)"
  using assms unfolding whileBody_def
  by (auto split: if_splits prod.splits sum.splits intro: round_decreases)

text \<open>
  The loop of the callback. The result is the error the callback throws, if any, and the
  state it leaves. Every round that goes on has removed an entry, so the loop ends.
\<close>

function rounds :: "ForeachOptions \<Rightarrow> World \<Rightarrow> SchedState \<Rightarrow> Error option \<times> SchedState" where
  "rounds opts world st =
     (if \<not> length (needsProcessing st) > 0 then (None, st)
      else (case whileBody opts world st of
              Break st' \<Rightarrow> (None, st')
            | Return st' \<Rightarrow> (None, st')
            | Throw err st' \<Rightarrow> (Some err, st')
            | Continue st' \<Rightarrow> rounds opts world st'))"
  by pat_completeness auto
termination
  by (relation "measure (\<lambda>(opts, world, st). length (needsProcessing st))")
     (auto intro: whileBody_decreases)

declare rounds.simps [simp del]

text \<open>
  Modelled from the spec: \<open>StreamReport.start\<close> (package \<open>@berry/core\<close>, not among the
  sources) runs the callback on a fresh report. An exception of the callback "propagates
  and aborts the run"; otherwise the report is handed back.
\<close>

definition StreamReport_start ::
  "(SchedState \<Rightarrow> Error option \<times> SchedState) \<Rightarrow> (Error \<times> SchedState) + SchedState"
where
  "StreamReport_start callback =
     (case callback initState of
        (Some err, st) \<Rightarrow> Inl (err, st)
      | (None, st) \<Rightarrow> Inr st)"

text \<open>
  The result of the command: the exception it throws or the exit code it returns, with
  the state the scheduler was left in.
\<close>

datatype Outcome = Threw Error SchedState | Returned int SchedState

text \<open>
  The action of the command. The root workspace is \<open>cwdWorkspace!\<close> only when \<open>all\<close> is
  off, where the first check has made sure that it exists. Sequential runs force
  \<open>interlaced\<close>.
\<close>

definition action :: "ForeachOptions \<Rightarrow> World \<Rightarrow> Outcome" where
  "action opts world =
     (if \<not> all opts \<and> cwdWorkspace world = None then Threw WorkspaceRequiredError initState
      else
        (case parse world (command opts # rest opts) of
           (commandPath, args) \<Rightarrow>
             (let scriptName = getScriptName commandPath args
              in if length commandPath = 0 then Threw UsageError initState
                 else
                   (let rootWorkspace = (if all opts then topLevelWorkspace (project world)
                                         else the (cwdWorkspace world))
                    in case getWorkspaceChildrenRecursive (stackDepth world) rootWorkspace
                              (project world) of
                         None \<Rightarrow> Threw RangeError initState
                       | Some descendants \<Rightarrow>
                           (case selectLoop opts world scriptName [] (rootWorkspace # descendants) of
                              Inl err \<Rightarrow> Threw err initState
                            | Inr workspaces \<Rightarrow>
                                (let opts' = (if \<not> parallel opts then opts\<lparr>interlaced := True\<rparr>
                                              else opts)
                                 in case StreamReport_start
                                           (\<lambda>st. rounds opts' world
                                              (st\<lparr>needsProcessing := seed (needsProcessing st) workspaces\<rparr>)) of
                                      Inl (err, st) \<Rightarrow> Threw err st
                                    | Inr st \<Rightarrow> Returned (exitCode (report st)) st))))))"

subsection \<open>Notions the properties are stated with\<close>

text \<open>
  The descriptors a workspace waits for: its dependencies, and its development
  dependencies as well under \<open>topologicalDev\<close>.
\<close>

definition relevantDescriptors :: "ForeachOptions \<Rightarrow> Workspace \<Rightarrow> Descriptor list" where
  "relevantDescriptors opts workspace =
     (if topologicalDev opts
      then map snd (dependencies (manifest workspace)) @ map snd (devDependencies (manifest workspace))
      else map snd (dependencies (manifest workspace)))"

text \<open>Some workspace the resolver returns for a relevant descriptor is still pending.\<close>

definition dependencyPending :: "ForeachOptions \<Rightarrow> Project \<Rightarrow> PendingMap \<Rightarrow> Workspace \<Rightarrow> bool" where
  "dependencyPending opts proj pending workspace =
     (\<exists>descriptor \<in> set (relevantDescriptors opts workspace).
        \<exists>w \<in> set (findWorkspacesByDescriptor proj descriptor).
          locatorHash (anchoredLocator w) \<in> fst ` set pending)"

text \<open>An entry the scan would dispatch: not being processed, and runnable.\<close>

definition eligible :: "ForeachOptions \<Rightarrow> Project \<Rightarrow> PendingMap \<Rightarrow> DescriptorHash set
    \<Rightarrow> LocatorHash \<times> Workspace \<Rightarrow> bool" where
  "eligible opts proj pending busy entry =
     (descriptorHash (anchoredDescriptor (snd entry)) \<notin> busy
      \<and> isRunnable opts proj pending (snd entry))"

text \<open>The state a run of the command ends in, thrown or returned.\<close>

definition finalState :: "Outcome \<Rightarrow> SchedState" where
  "finalState result = (case result of Threw err st \<Rightarrow> st | Returned code st \<Rightarrow> st)"

text \<open>The report holds the error of a dependency cycle.\<close>

fun isCycleError :: "ReportEntry \<Rightarrow> bool" where
  "isCycleError (ReportError m text) = (m = CYCLIC_DEPENDENCIES)"
| "isCycleError (ReportInfoNoOutput linePrefix code) = False"
| "isCycleError ReportSeparator = False"

definition cycleReported :: "ReportEntry list \<Rightarrow> bool" where
  "cycleReported r = list_ex isCycleError r"

text \<open>The state the loop returns in when a round has found a cycle.\<close>

definition cycleState :: "World \<Rightarrow> SchedState \<Rightarrow> SchedState" where
  "cycleState world st =
     st\<lparr>report := report st @ [ReportError CYCLIC_DEPENDENCIES
                                  (cycleMessage world (needsProcessing st))]\<rparr>"

text \<open>A task that came back with an exit code other than 0.\<close>

definition taskFailed :: "TaskRecord \<Rightarrow> bool" where
  "taskFailed t = (case outcome t of Inl err \<Rightarrow> False | Inr code \<Rightarrow> code \<noteq> 0)"

text \<open>What a task does last: it ends both streams and awaits that they have finished.\<close>

definition closing :: "TaskEvent list" where
  "closing = [Ended Stdout, Ended Stderr, Awaited Stdout, Awaited Stderr]"

text \<open>
  The selection as the specification words it: the candidates pass four filters one after
  the other. The requested script or command is the one that triggered the run when it
  equals \<open>npm_lifecycle_event\<close>; the originating workspace is the one of the current
  directory.
\<close>

definition requestedIsTrigger :: "ForeachOptions \<Rightarrow> World \<Rightarrow> string option \<Rightarrow> bool" where
  "requestedIsTrigger opts world scriptName =
     (Some (orElse scriptName (command opts)) = npm_lifecycle_event world)"

definition isOriginating :: "ForeachOptions \<Rightarrow> World \<Rightarrow> string option \<Rightarrow> Workspace \<Rightarrow> bool" where
  "isOriginating opts world scriptName workspace =
     (requestedIsTrigger opts world scriptName
      \<and> (case cwdWorkspace world of None \<Rightarrow> False | Some cw \<Rightarrow> cwd workspace = cwd cw))"

definition filteredCandidates ::
  "ForeachOptions \<Rightarrow> World \<Rightarrow> string option \<Rightarrow> Workspace list \<Rightarrow> Workspace list" where
  "filteredCandidates opts world scriptName candidates =
     filter (\<lambda>w. \<not> excluded opts w)
       (filter (\<lambda>w. \<not> notIncluded opts w)
          (filter (\<lambda>w. \<not> isOriginating opts world scriptName w)
             (filter (\<lambda>w. \<not> lacksScript scriptName w) candidates)))"

subsection \<open>Invariants of the rounds\<close>

text \<open>The options the scheduler runs with: sequential runs force \<open>interlaced\<close>.\<close>

definition effectiveOptions :: "ForeachOptions \<Rightarrow> ForeachOptions" where
  "effectiveOptions opts = (if \<not> parallel opts then opts\<lparr>interlaced := True\<rparr> else opts)"

definition topologicalMode :: "ForeachOptions \<Rightarrow> bool" where
  "topologicalMode opts = (topological opts \<or> topologicalDev opts)"

text \<open>The events every task goes through, whatever the executor does.\<close>

definition taskEvents :: "ForeachOptions \<Rightarrow> World \<Rightarrow> Workspace \<Rightarrow> nat \<Rightarrow> TaskEvent list" where
  "taskEvents opts world w i =
     [Created Stdout (createStream (getPrefix world w (verbose opts) i) (interlaced opts)),
      Created Stderr (createStream (getPrefix world w (verbose opts) i) (interlaced opts)),
      Executed, Ended Stdout, Ended Stderr, Awaited Stdout, Awaited Stderr]"

text \<open>The locator hashes of the workspaces that have run, in order.\<close>

definition ranHashes :: "SchedState \<Rightarrow> LocatorHash list" where
  "ranHashes st = map (\<lambda>t. locatorHash (anchoredLocator (task_workspace t))) (tasks st)"

text \<open>A pending map as the seeding builds it: one entry per key, the key the hash of the value.\<close>

definition keyed :: "PendingMap \<Rightarrow> bool" where
  "keyed m = (distinct (map fst m) \<and> (\<forall>e \<in> set m. fst e = locatorHash (anchoredLocator (snd e))))"

text \<open>Between rounds: no workspace has run twice, and none that has run is pending.\<close>

definition undisturbed :: "SchedState \<Rightarrow> bool" where
  "undisturbed st =
     (keyed (needsProcessing st) \<and> distinct (ranHashes st)
      \<and> set (ranHashes st) \<inter> fst ` set (needsProcessing st) = {})"

text \<open>
  Between rounds: no cycle has been reported, nothing is being processed, and the report
  has an error exactly when a task has failed under a topological mode.
\<close>

definition accounted :: "ForeachOptions \<Rightarrow> SchedState \<Rightarrow> bool" where
  "accounted opts st =
     (\<not> cycleReported (report st) \<and> processing st = {}
      \<and> (hasErrors (report st) \<longleftrightarrow> topologicalMode opts \<and> list_ex taskFailed (tasks st)))"

text \<open>Between rounds: every task has closed its streams and returned an exit code.\<close>

definition settled :: "SchedState \<Rightarrow> bool" where
  "settled st = (\<forall>t \<in> set (tasks st). suffix closing (events t) \<and> (\<exists>code. outcome t = Inr code))"

text \<open>
  At the end of the loop: every task has closed its streams. If a task threw, the loop
  throws the error of a task that threw; with \<open>parallel\<close> off that task is the last one
  and the error is its own.
\<close>

definition streamsClosed :: "ForeachOptions \<Rightarrow> Error option \<times> SchedState \<Rightarrow> bool" where
  "streamsClosed opts rs =
     (\<forall>t \<in> set (tasks (snd rs)).
        suffix closing (events t)
        \<and> (\<forall>err. outcome t = Inl err \<longrightarrow>
              (\<exists>thrown. fst rs = Some thrown
                 \<and> (\<exists>t' \<in> set (tasks (snd rs)). outcome t' = Inl thrown))
              \<and> (\<not> parallel opts \<longrightarrow> fst rs = Some err \<and> t = last (tasks (snd rs)))))"

subsection \<open>Example projects\<close>

text \<open>
  Small projects to run the command on. A workspace named \<open>n\<close> lives at \<open>/n\<close>; a
  dependency on \<open>n\<close> is a descriptor the resolver maps to the workspaces named \<open>n\<close>. The
  parser takes the first word as the command path and the others as arguments.
\<close>

definition depOn :: "string \<Rightarrow> IdentHash \<times> Descriptor" where
  "depOn n = (''i-'' @ n, \<lparr>range = ''workspace:*'', descriptorHash = ''d-'' @ n\<rparr>)"

definition mkWorkspace ::
  "string \<Rightarrow> string list \<Rightarrow> string list \<Rightarrow> string list \<Rightarrow> string list \<Rightarrow> Workspace" where
  "mkWorkspace n scriptNames deps devDeps children =
     \<lparr>cwd = ''/'' @ n,
      locator = \<lparr>name = n, locatorHash = ''l-'' @ n\<rparr>,
      anchoredLocator = \<lparr>name = n, locatorHash = ''al-'' @ n\<rparr>,
      anchoredDescriptor = \<lparr>range = ''workspace:'' @ n, descriptorHash = ''ad-'' @ n\<rparr>,
      manifest = \<lparr>scripts = scriptNames, dependencies = map depOn deps,
                  devDependencies = map depOn devDeps\<rparr>,
      workspacesCwds = map (\<lambda>c. ''/'' @ c) children\<rparr>"

definition mkProject :: "Workspace \<Rightarrow> Workspace list \<Rightarrow> Project" where
  "mkProject topLevel members =
     \<lparr>workspacesByCwd = map_of (map (\<lambda>w. (cwd w, w)) members),
      topLevelWorkspace = topLevel,
      findWorkspacesByDescriptor =
        (\<lambda>d. filter (\<lambda>w. descriptorHash d = ''d-'' @ name (locator w)) members)\<rparr>"

definition exitWith :: "string list \<Rightarrow> Workspace \<Rightarrow> ExecResult" where
  "exitWith failing w =
     (if name (locator w) \<in> set failing then Resolved (Some 1) False False
      else Resolved (Some 0) False False)"

definition mkWorld :: "Project \<Rightarrow> Workspace option \<Rightarrow> string option \<Rightarrow> (Workspace \<Rightarrow> ExecResult) \<Rightarrow> World" where
  "mkWorld p c e r =
     \<lparr>project = p, cwdWorkspace = c,
      parse = (\<lambda>argv. (take 1 argv, drop 1 argv)),
      npm_lifecycle_event = e, run = r,
      prettyLocator = name, stringifyIdent = name, format = (\<lambda>s c. s),
      stackDepth = 8\<rparr>"

definition mkOptions :: "string \<Rightarrow> string list \<Rightarrow> bool \<Rightarrow> bool \<Rightarrow> bool \<Rightarrow> ForeachOptions" where
  "mkOptions c r a p t =
     \<lparr>command = c, rest = r, exclude_names = [], include_names = [], all = a,
      interlaced = False, jobs = None, parallel = p, topologicalDev = False, topological = t,
      verbose = False\<rparr>"

definition wsA :: Workspace where "wsA = mkWorkspace ''a'' [''build''] [] [] [''b'']"
definition wsB :: Workspace where "wsB = mkWorkspace ''b'' [''build''] [''a''] [] []"
definition projAB :: Project where "projAB = mkProject wsA [wsA, wsB]"

definition wsX :: Workspace where "wsX = mkWorkspace ''x'' [''build''] [''y''] [] [''y'']"
definition wsY :: Workspace where "wsY = mkWorkspace ''y'' [''build''] [''x''] [] []"
definition projXY :: Project where "projXY = mkProject wsX [wsX, wsY]"

lemmas fixture_defs = depOn_def mkWorkspace_def mkProject_def exitWith_def mkWorld_def mkOptions_def
  wsA_def wsB_def projAB_def wsX_def wsY_def projXY_def

lemmas model_defs = action_def getScriptName_def selfGuard_def lacksScript_def truthy_def orElse_def
  notIncluded_def excluded_def StreamReport_start_def initState_def whileBody_def
  hasErrors_def exitCode_def reportError_def runCommand_def createStream_def getPrefix_def
  Map_has_def Map_delete_def isRunnable_def resolvedSet_def cycleMessage_def

definition optsAB :: "bool \<Rightarrow> ForeachOptions" where
  "optsAB p = mkOptions ''run'' [''build''] False p True"

definition worldAB :: "string list \<Rightarrow> World" where
  "worldAB failing = mkWorld projAB (Some wsA) None (exitWith failing)"

definition pendingAB :: SchedState where
  "pendingAB = initState\<lparr>needsProcessing := seed [] [wsA, wsB]\<rparr>"

lemmas ab_defs = optsAB_def worldAB_def pendingAB_def

definition worldXY :: World where
  "worldXY = mkWorld projXY (Some wsX) None (exitWith [])"

definition pendingXY :: SchedState where
  "pendingXY = initState\<lparr>needsProcessing := seed [] [wsX, wsY]\<rparr>"

definition wsR :: Workspace where "wsR = mkWorkspace ''r'' [''build''] [] [] [''p'', ''q'']"

definition wsP :: Workspace where "wsP = mkWorkspace ''p'' [''build''] [] [] [''d'']"

definition wsQ :: Workspace where "wsQ = mkWorkspace ''q'' [''build''] [] [] [''d'']"

definition wsD :: Workspace where "wsD = mkWorkspace ''d'' [''build''] [] [] []"

definition projDiamond :: Project where "projDiamond = mkProject wsR [wsR, wsP, wsQ, wsD]"

definition worldDiamond :: World where
  "worldDiamond = mkWorld projDiamond (Some wsR) None (exitWith [])"

definition rejectFor :: "string \<Rightarrow> Workspace \<Rightarrow> ExecResult" where
  "rejectFor n w =
     (if name (locator w) = n then Rejected ''spawn failed'' else Resolved (Some 0) False False)"

definition worldOutside :: "string \<Rightarrow> World" where
  "worldOutside event = mkWorld projAB None (Some event) (exitWith [])"

lemmas more_fixture_defs = worldXY_def pendingXY_def wsR_def wsP_def wsQ_def wsD_def
  projDiamond_def worldDiamond_def rejectFor_def worldOutside_def

section \<open>Properties\<close>

subsection \<open>Auxiliary facts\<close>

lemma Map_has_iff: "Map_has m k \<longleftrightarrow> k \<in> fst ` set m"
  by (auto simp: Map_has_def list_ex_iff)

lemma resolvedLoop_iff:
  "resolvedLoop pending proj ds \<longleftrightarrow>
     (\<forall>descriptor \<in> set (map snd ds). \<forall>w \<in> set (findWorkspacesByDescriptor proj descriptor).
        locatorHash (anchoredLocator w) \<notin> fst ` set pending)"
proof (induction pending proj ds rule: resolvedLoop.induct)
  case (1 pending proj)
  then show ?case by simp
next
  case (2 pending proj identHash descriptor others)
  show ?case
  proof (cases "list_ex (\<lambda>w. Map_has pending (locatorHash (anchoredLocator w)))
                  (findWorkspacesByDescriptor proj descriptor)")
    case True
    then show ?thesis by (auto simp: list_ex_iff Map_has_iff)
  next
    case False
    then show ?thesis using 2 by (auto simp: list_ex_iff Map_has_iff)
  qed
qed

lemma map_snd_resolvedSet: "map snd (resolvedSet opts w) = relevantDescriptors opts w"
  by (simp add: resolvedSet_def relevantDescriptors_def)

lemma isRunnable_topological:
  "topological opts \<or> topologicalDev opts \<Longrightarrow>
     isRunnable opts proj pending w \<longleftrightarrow> \<not> dependencyPending opts proj pending w"
  unfolding isRunnable_def dependencyPending_def resolvedLoop_iff map_snd_resolvedSet
  by auto

lemma scan_busy_mono:
  "scan opts proj pending busy es = (cps, busy') \<Longrightarrow> busy \<subseteq> busy'"
proof (induction es arbitrary: busy cps busy')
  case Nil
  then show ?case by simp
next
  case (Cons e es)
  obtain k' w' where e: "e = (k', w')" by (cases e)
  show ?case using Cons.prems unfolding e
    by (auto split: if_splits prod.splits dest: Cons.IH)
qed

lemma scan_dispatched:
  "scan opts proj pending busy es = (cps, busy') \<Longrightarrow> (k, w) \<in> set cps \<Longrightarrow>
     isRunnable opts proj pending w \<and> descriptorHash (anchoredDescriptor w) \<in> busy'
     \<and> descriptorHash (anchoredDescriptor w) \<notin> busy"
proof (induction es arbitrary: busy cps busy')
  case Nil
  then show ?case by simp
next
  case (Cons e es)
  obtain k' w' where e: "e = (k', w')" by (cases e)
  let ?h = "descriptorHash (anchoredDescriptor w')"
  consider (skip) "?h \<in> busy \<or> \<not> isRunnable opts proj pending w'"
    | (one) "?h \<notin> busy" "isRunnable opts proj pending w'" "\<not> parallel opts"
    | (many) "?h \<notin> busy" "isRunnable opts proj pending w'" "parallel opts"
    by blast
  then show ?case
  proof cases
    case skip
    then have "scan opts proj pending busy es = (cps, busy')"
      using Cons.prems(1) unfolding e by (auto split: if_splits)
    then show ?thesis using Cons.IH Cons.prems(2) by blast
  next
    case one
    then have "cps = [(k', w')]" "busy' = insert ?h busy"
      using Cons.prems(1) unfolding e by auto
    then show ?thesis using one Cons.prems(2) by auto
  next
    case many
    then obtain rest where r: "scan opts proj pending (insert ?h busy) es = (rest, busy')"
      and cps: "cps = (k', w') # rest"
      using Cons.prems(1) unfolding e by (auto split: prod.splits)
    have mono: "insert ?h busy \<subseteq> busy'" using r by (rule scan_busy_mono)
    show ?thesis
    proof (cases "(k, w) = (k', w')")
      case True
      then show ?thesis using many mono by auto
    next
      case False
      then have "(k, w) \<in> set rest" using Cons.prems(2) cps by auto
      then show ?thesis using Cons.IH[OF r] by auto
    qed
  qed
qed

lemma scan_sequential:
  "\<not> parallel opts \<Longrightarrow>
     scan opts proj pending busy es =
       (case find (eligible opts proj pending busy) es of
          None \<Rightarrow> ([], busy)
        | Some e \<Rightarrow> ([e], insert (descriptorHash (anchoredDescriptor (snd e))) busy))"
proof (induction es)
  case Nil
  then show ?case by simp
next
  case (Cons e es)
  obtain k' w' where e: "e = (k', w')" by (cases e)
  show ?case using Cons unfolding e by (simp add: eligible_def)
qed

text \<open>What one call of \<open>runCommand\<close> leaves behind.\<close>

lemma runCommand_workspace [simp]:
  "task_workspace (fst (runCommand opts world r w i)) = w"
  by (simp add: runCommand_def Let_def split: ExecResult.splits)

lemma runCommand_events:
  "events (fst (runCommand opts world r w i)) = taskEvents opts world w i"
  by (simp add: runCommand_def taskEvents_def Let_def split: ExecResult.splits)

lemma runCommand_outcome:
  "outcome (fst (runCommand opts world r w i)) =
     (case run world w of
        Resolved code emptyStdout emptyStderr \<Rightarrow> Inr (case code of None \<Rightarrow> 0 | Some c \<Rightarrow> c)
      | Rejected err \<Rightarrow> Inl (ExecutorError err))"
  by (simp add: runCommand_def Let_def split: ExecResult.splits)

lemma hasErrors_append [simp]: "hasErrors (r @ r') \<longleftrightarrow> hasErrors r \<or> hasErrors r'"
  by (auto simp: hasErrors_def list_ex_iff)

lemma runCommand_hasErrors [simp]:
  "hasErrors (snd (runCommand opts world r w i)) = hasErrors r"
  by (simp add: runCommand_def Let_def hasErrors_def split: ExecResult.splits)

lemma runCommand_errors:
  "filter isError (snd (runCommand opts world r w i)) = filter isError r"
  by (simp add: runCommand_def Let_def split: ExecResult.splits)

text \<open>One step of \<open>awaitAll\<close>, with the task of the first entry named.\<close>

lemma awaitAll_Cons:
  "awaitAll opts world st ((k, w) # cps) =
     (let task = fst (runCommand opts world (report st) w (Suc (commandCount st)));
          st1 = st\<lparr>commandCount := Suc (commandCount st),
                   report := snd (runCommand opts world (report st) w (Suc (commandCount st))),
                   tasks := tasks st @ [task]\<rparr>
      in case outcome task of
           Inl err \<Rightarrow> (Inl err, snd (awaitAll opts world st1 cps))
         | Inr exit \<Rightarrow>
             (case awaitAll opts world
                     (st1\<lparr>needsProcessing := Map_delete (needsProcessing st) k,
                          processing := processing st - {descriptorHash (anchoredDescriptor w)}\<rparr>) cps of
                (Inl err, st3) \<Rightarrow> (Inl err, st3)
              | (Inr exitCodes, st3) \<Rightarrow> (Inr (exit # exitCodes), st3)))"
  by (simp add: Let_def split: prod.splits sum.splits)

lemma awaitAll_errors:
  "awaitAll opts world st cps = (r, st') \<Longrightarrow>
     filter isError (report st') = filter isError (report st)"
proof (induction cps arbitrary: st r st')
  case Nil
  then show ?case by simp
next
  case (Cons e cps)
  obtain k w where e: "e = (k, w)" by (cases e)
  note rest = Cons.IH[OF surjective_pairing]
  show ?case using Cons.prems unfolding e awaitAll_Cons
    by (auto simp: Let_def runCommand_errors rest split: sum.splits prod.splits dest!: Cons.IH)
qed

lemma awaitAll_processing:
  "awaitAll opts world st cps = (Inr codes, st') \<Longrightarrow>
     processing st' = processing st - (descriptorHash \<circ> anchoredDescriptor \<circ> snd) ` set cps"
proof (induction cps arbitrary: st codes st')
  case Nil
  then show ?case by simp
next
  case (Cons e cps)
  obtain k w where e: "e = (k, w)" by (cases e)
  show ?case using Cons.prems unfolding e awaitAll_Cons
    by (auto simp: Let_def split: sum.splits prod.splits dest!: Cons.IH)
qed

text \<open>The tasks a round adds: one per dispatched entry, whatever the others do.\<close>

lemma awaitAll_tasks:
  "awaitAll opts world st cps = (r, st') \<Longrightarrow>
     \<exists>new. tasks st' = tasks st @ new
       \<and> length new = length cps
       \<and> map task_workspace new = map snd cps
       \<and> (\<forall>t \<in> set new. \<exists>i. events t = taskEvents opts world (task_workspace t) i)
       \<and> (case r of
             Inr codes \<Rightarrow> map outcome new = map Inr codes
           | Inl err \<Rightarrow> (\<exists>t \<in> set new. outcome t = Inl err))"
proof (induction cps arbitrary: st r st')
  case Nil
  then show ?case by auto
next
  case (Cons e cps)
  obtain k w where e: "e = (k, w)" by (cases e)
  define task where "task = fst (runCommand opts world (report st) w (Suc (commandCount st)))"
  define st1 where "st1 = st\<lparr>commandCount := Suc (commandCount st),
                   report := snd (runCommand opts world (report st) w (Suc (commandCount st))),
                   tasks := tasks st @ [task]\<rparr>"
  have tw: "task_workspace task = w" by (simp add: task_def)
  have ev: "events task = taskEvents opts world w (Suc (commandCount st))"
    by (simp add: task_def runCommand_events)
  have t1: "tasks st1 = tasks st @ [task]" by (simp add: st1_def)
  show ?case
  proof (cases "outcome task")
    case (Inl err)
    obtain r2 st3 where r2: "awaitAll opts world st1 cps = (r2, st3)"
      by (cases "awaitAll opts world st1 cps")
    have res: "r = Inl err" "st' = st3"
      using Cons.prems Inl r2 unfolding e awaitAll_Cons
      by (auto simp: Let_def st1_def task_def)
    from Cons.IH[OF r2] obtain new where new: "tasks st3 = tasks st1 @ new"
      "length new = length cps"
      "map task_workspace new = map snd cps"
      "\<forall>t \<in> set new. \<exists>i. events t = taskEvents opts world (task_workspace t) i"
      by blast
    show ?thesis
    proof (intro exI[of _ "task # new"] conjI)
      show "tasks st' = tasks st @ task # new" using new(1) t1 res by simp
      show "length (task # new) = length (e # cps)" using new(2) by simp
      show "map task_workspace (task # new) = map snd (e # cps)"
        using new(3) tw by (simp add: e)
      show "\<forall>t\<in>set (task # new). \<exists>i. events t = taskEvents opts world (task_workspace t) i"
        using new(4) ev tw by auto
      show "case r of
              Inl err \<Rightarrow> \<exists>t\<in>set (task # new). outcome t = Inl err
            | Inr codes \<Rightarrow> map outcome (task # new) = map Inr codes"
        using Inl res by simp
    qed
  next
    case (Inr exit)
    define st2 where "st2 = st1\<lparr>needsProcessing := Map_delete (needsProcessing st) k,
                          processing := processing st - {descriptorHash (anchoredDescriptor w)}\<rparr>"
    obtain r2 where r2: "awaitAll opts world st2 cps = (r2, st')"
      and r: "r = (case r2 of Inl err \<Rightarrow> Inl err | Inr codes \<Rightarrow> Inr (exit # codes))"
      using Cons.prems Inr
      unfolding e awaitAll_Cons
      by (auto simp: Let_def st2_def st1_def task_def split: prod.splits sum.splits)
    from Cons.IH[OF r2] obtain new where new: "tasks st' = tasks st2 @ new"
      "length new = length cps"
      "map task_workspace new = map snd cps"
      "\<forall>t \<in> set new. \<exists>i. events t = taskEvents opts world (task_workspace t) i"
      "(case r2 of
             Inr codes \<Rightarrow> map outcome new = map Inr codes
           | Inl err \<Rightarrow> (\<exists>t \<in> set new. outcome t = Inl err))"
      by blast
    have t2: "tasks st2 = tasks st @ [task]" by (simp add: st2_def st1_def)
    show ?thesis
    proof (intro exI[of _ "task # new"] conjI)
      show "tasks st' = tasks st @ task # new" using new(1) t2 by simp
      show "length (task # new) = length (e # cps)" using new(2) by simp
      show "map task_workspace (task # new) = map snd (e # cps)"
        using new(3) tw by (simp add: e)
      show "\<forall>t\<in>set (task # new). \<exists>i. events t = taskEvents opts world (task_workspace t) i"
        using new(4) ev tw by auto
      show "case r of
              Inl err \<Rightarrow> \<exists>t\<in>set (task # new). outcome t = Inl err
            | Inr codes \<Rightarrow> map outcome (task # new) = map Inr codes"
        using new(5) Inr unfolding r by (cases r2) auto
    qed
  qed
qed

text \<open>The four ways a round ends.\<close>

lemma whileBody_Break:
  "whileBody opts world st = Break st' \<Longrightarrow> st' = st \<and> hasErrors (report st)"
  unfolding whileBody_def by (auto split: if_splits prod.splits sum.splits)

lemma whileBody_Return:
  "whileBody opts world st = Return st' \<Longrightarrow>
     \<not> hasErrors (report st)
     \<and> fst (scan opts (project world) (needsProcessing st) (processing st) (needsProcessing st)) = []
     \<and> st' = st\<lparr>report := report st @ [ReportError CYCLIC_DEPENDENCIES
                                          (cycleMessage world (needsProcessing st))]\<rparr>"
  unfolding whileBody_def reportError_def by (auto split: if_splits prod.splits sum.splits)

lemma whileBody_Throw:
  "whileBody opts world st = Throw err st' \<Longrightarrow>
     \<not> hasErrors (report st) \<and>
     (\<exists>cps busy. scan opts (project world) (needsProcessing st) (processing st) (needsProcessing st)
                   = (cps, busy)
        \<and> cps \<noteq> [] \<and> awaitAll opts world (st\<lparr>processing := busy\<rparr>) cps = (Inl err, st'))"
  unfolding whileBody_def by (auto split: if_splits prod.splits sum.splits)

lemma whileBody_Continue:
  "whileBody opts world st = Continue st' \<Longrightarrow>
     \<not> hasErrors (report st) \<and>
     (\<exists>cps busy codes st''.
        scan opts (project world) (needsProcessing st) (processing st) (needsProcessing st) = (cps, busy)
        \<and> cps \<noteq> [] \<and> awaitAll opts world (st\<lparr>processing := busy\<rparr>) cps = (Inr codes, st'')
        \<and> st' = (if (topological opts \<or> topologicalDev opts) \<and> (\<exists>code \<in> set codes. code \<noteq> 0)
                  then st''\<lparr>report := report st'' @ [ReportError UNNAMED failedMessage]\<rparr>
                  else st''))"
  unfolding whileBody_def reportError_def
  by (auto simp: list_ex_iff split: if_splits prod.splits sum.splits)

text \<open>
  An invariant of the rounds holds of the state the loop ends in: induction on the number
  of pending entries.
\<close>

lemma rounds_rule:
  assumes "I st"
    and "\<And>s. I s \<Longrightarrow> needsProcessing s = [] \<Longrightarrow> Q (None, s)"
    and "\<And>s s'. I s \<Longrightarrow> needsProcessing s \<noteq> [] \<Longrightarrow> whileBody opts world s = Break s' \<Longrightarrow> Q (None, s')"
    and "\<And>s s'. I s \<Longrightarrow> needsProcessing s \<noteq> [] \<Longrightarrow> whileBody opts world s = Return s' \<Longrightarrow> Q (None, s')"
    and "\<And>s s' err. I s \<Longrightarrow> needsProcessing s \<noteq> [] \<Longrightarrow> whileBody opts world s = Throw err s'
           \<Longrightarrow> Q (Some err, s')"
    and "\<And>s s'. I s \<Longrightarrow> needsProcessing s \<noteq> [] \<Longrightarrow> whileBody opts world s = Continue s' \<Longrightarrow> I s'"
  shows "Q (rounds opts world st)"
  using assms(1)
proof (induction "length (needsProcessing st)" arbitrary: st rule: less_induct)
  case less
  note 1 = less(1) less(2)
  show ?case
  proof (cases "needsProcessing st = []")
    case True
    then show ?thesis using assms(2)[OF 1(2)] by (simp add: rounds.simps)
  next
    case False
    show ?thesis
    proof (cases "whileBody opts world st")
      case (Break s')
      then show ?thesis using assms(3)[OF 1(2) False Break] False by (simp add: rounds.simps)
    next
      case (Return s')
      then show ?thesis using assms(4)[OF 1(2) False Return] False by (simp add: rounds.simps)
    next
      case (Throw err s')
      then show ?thesis using assms(5)[OF 1(2) False Throw] False by (simp add: rounds.simps)
    next
      case (Continue s')
      have "I s'" using assms(6)[OF 1(2) False Continue] .
      then have "Q (rounds opts world s')"
        using 1(1) whileBody_decreases[OF Continue] by simp
      then show ?thesis using False Continue by (simp add: rounds.simps)
    qed
  qed
qed

lemma Map_delete_keeps:
  "(k, w) \<in> set m \<Longrightarrow> k \<notin> set ks \<Longrightarrow> (k, w) \<in> set (foldl Map_delete m ks)"
  by (induction ks arbitrary: m) (auto simp: Map_delete_def)

lemma distinct_keys_notin:
  assumes "distinct (map fst m)" and "set cps \<subseteq> set m" and "(k, w) \<in> set m"
    and "(k, w) \<notin> set cps"
  shows "k \<notin> fst ` set cps"
proof
  assume "k \<in> fst ` set cps"
  then obtain w' where w': "(k, w') \<in> set cps" by auto
  then have "(k, w') \<in> set m" using assms(2) by auto
  then have "w' = w" using assms(1,3) by (meson eq_key_imp_eq_value)
  then show False using w' assms(4) by simp
qed

lemma effectiveOptions_flags [simp]:
  "parallel (effectiveOptions opts) = parallel opts"
  "topological (effectiveOptions opts) = topological opts"
  "topologicalDev (effectiveOptions opts) = topologicalDev opts"
  "verbose (effectiveOptions opts) = verbose opts"
  by (simp_all add: effectiveOptions_def)

lemma action_cases:
  obtains (early) err where "action opts world = Threw err initState"
  | (scheduled) workspaces r st where
      "rounds (effectiveOptions opts) world (initState\<lparr>needsProcessing := seed [] workspaces\<rparr>) = (r, st)"
      "action opts world = (case r of Some err \<Rightarrow> Threw err st | None \<Rightarrow> Returned (exitCode (report st)) st)"
proof (cases "\<exists>err. action opts world = Threw err initState")
  case True
  then show ?thesis using early by blast
next
  case False
  then show ?thesis
    using scheduled
    unfolding action_def StreamReport_start_def effectiveOptions_def Let_def
    by (auto simp: initState_def split: if_splits prod.splits option.splits sum.splits)
qed

lemma keys_Map_set:
  "map fst (Map_set m k v) = (if k \<in> set (map fst m) then map fst m else map fst m @ [k])"
  by (induction m k v rule: Map_set.induct) (auto simp: image_iff)

lemma set_Map_set_subset: "set (Map_set m k v) \<subseteq> insert (k, v) (set m)"
  by (induction m k v rule: Map_set.induct) auto

lemma set_Map_set: "fst ` set (Map_set m k v) = insert k (fst ` set m)"
proof -
  have "set (map fst (Map_set m k v)) = insert k (set (map fst m))"
    unfolding keys_Map_set by auto
  then show ?thesis by simp
qed

lemma keyed_Map_set:
  assumes "keyed m"
  shows "keyed (Map_set m (locatorHash (anchoredLocator w)) w)"
proof -
  have "distinct (map fst (Map_set m (locatorHash (anchoredLocator w)) w))"
    using assms unfolding keys_Map_set keyed_def by auto
  moreover have "fst e = locatorHash (anchoredLocator (snd e))"
    if "e \<in> set (Map_set m (locatorHash (anchoredLocator w)) w)" for e
    using that set_Map_set_subset[of m "locatorHash (anchoredLocator w)" w] assms
    unfolding keyed_def by auto
  ultimately show ?thesis unfolding keyed_def by blast
qed

lemma keyed_seed: "keyed m \<Longrightarrow> keyed (seed m workspaces)"
  by (induction workspaces arbitrary: m) (auto intro: keyed_Map_set)

lemma keys_seed:
  "fst ` set (seed m workspaces)
     = fst ` set m \<union> (\<lambda>w. locatorHash (anchoredLocator w)) ` set workspaces"
  by (induction workspaces arbitrary: m) (auto simp: set_Map_set)

lemma foldl_Map_delete: "foldl Map_delete m ks = filter (\<lambda>e. fst e \<notin> set ks) m"
  by (induction ks arbitrary: m) (auto simp: Map_delete_def intro: filter_cong)

lemma keyed_filter: "keyed m \<Longrightarrow> keyed (filter P m)"
  by (auto simp: keyed_def distinct_map_filter)

lemma scan_distinct:
  "distinct (map fst es) \<Longrightarrow> scan opts proj pending busy es = (cps, busy') \<Longrightarrow>
     distinct (map fst cps)"
proof (induction es arbitrary: busy cps busy')
  case Nil
  then show ?case by simp
next
  case (Cons e es)
  obtain k w where e: "e = (k, w)" by (cases e)
  have d: "distinct (map fst es)" and k: "k \<notin> fst ` set es"
    using Cons.prems(1) unfolding e by auto
  show ?case
  proof (cases "descriptorHash (anchoredDescriptor w) \<notin> busy
                \<and> isRunnable opts proj pending w \<and> parallel opts")
    case True
    then obtain others where r: "scan opts proj pending
        (insert (descriptorHash (anchoredDescriptor w)) busy) es = (others, busy')"
      and cps: "cps = (k, w) # others"
      using Cons.prems(2) unfolding e by (auto split: prod.splits)
    have "set others \<subseteq> set es" using r by (rule scan_subset)
    then have "k \<notin> fst ` set others" using k by auto
    then show ?thesis using Cons.IH[OF d r] cps by simp
  next
    case False
    then consider "scan opts proj pending busy es = (cps, busy')" | "cps = [(k, w)]"
      using Cons.prems(2) unfolding e by (auto split: if_splits)
    then show ?thesis using Cons.IH[OF d] by cases auto
  qed
qed

lemma scan_busy:
  "scan opts proj pending busy es = (cps, busy') \<Longrightarrow>
     busy' = busy \<union> (\<lambda>e. descriptorHash (anchoredDescriptor (snd e))) ` set cps"
proof (induction es arbitrary: busy cps busy')
  case Nil
  then show ?case by simp
next
  case (Cons e es)
  obtain k w where e: "e = (k, w)" by (cases e)
  show ?case using Cons.prems unfolding e
    by (auto split: if_splits prod.splits dest!: Cons.IH)
qed

lemma awaitAll_ranHashes:
  assumes aw: "awaitAll opts world st cps = (r, st')"
    and keys: "\<forall>e \<in> set cps. fst e = locatorHash (anchoredLocator (snd e))"
  shows "ranHashes st' = ranHashes st @ map fst cps"
proof -
  obtain new where new: "tasks st' = tasks st @ new"
    "map task_workspace new = map snd cps"
    using awaitAll_tasks[OF aw] by blast
  have "map (\<lambda>t. locatorHash (anchoredLocator (task_workspace t))) new
      = map (\<lambda>w. locatorHash (anchoredLocator w)) (map task_workspace new)"
    by simp
  also have "\<dots> = map (\<lambda>e. locatorHash (anchoredLocator (snd e))) cps"
    unfolding new(2) by simp
  also have "\<dots> = map fst cps"
    using keys by (intro map_cong refl) simp
  finally show ?thesis
    using new(1) by (simp add: ranHashes_def)
qed

lemma round_ranHashes:
  assumes inv: "undisturbed st"
    and sc: "scan opts proj (needsProcessing st) busy0 (needsProcessing st) = (cps, busy)"
    and aw: "awaitAll opts world (st\<lparr>processing := busy\<rparr>) cps = (r, st')"
  shows "distinct (ranHashes st') \<and> (\<forall>codes. r = Inr codes \<longrightarrow> undisturbed st')"
proof -
  have sub: "set cps \<subseteq> set (needsProcessing st)" using sc by (rule scan_subset)
  have dist: "distinct (map fst cps)"
    using scan_distinct[OF _ sc] inv by (simp add: undisturbed_def keyed_def)
  have keys: "\<forall>e \<in> set cps. fst e = locatorHash (anchoredLocator (snd e))"
    using sub inv by (auto simp: undisturbed_def keyed_def)
  have "ranHashes st' = ranHashes (st\<lparr>processing := busy\<rparr>) @ map fst cps"
    using awaitAll_ranHashes[OF aw keys] .
  then have ran: "ranHashes st' = ranHashes st @ map fst cps"
    by (simp add: ranHashes_def)
  have "set (map fst cps) \<subseteq> fst ` set (needsProcessing st)"
    using sub by auto
  then have d: "distinct (ranHashes st')"
    using inv dist unfolding ran undisturbed_def by auto
  have "undisturbed st'" if r: "r = Inr codes" for codes
  proof -
    have np: "needsProcessing st' = filter (\<lambda>e. fst e \<notin> set (map fst cps)) (needsProcessing st)"
      using awaitAll_needsProcessing[OF aw[unfolded r]] by (simp add: foldl_Map_delete)
    have "keyed (needsProcessing st')"
      unfolding np using inv by (auto simp: undisturbed_def intro: keyed_filter)
    moreover have "set (ranHashes st') \<inter> fst ` set (needsProcessing st') = {}"
      unfolding ran np using inv by (auto simp: undisturbed_def)
    ultimately show ?thesis using d by (simp add: undisturbed_def)
  qed
  then show ?thesis using d by blast
qed

lemma rounds_ranHashes:
  assumes "undisturbed st"
  shows "distinct (ranHashes (snd (rounds opts world st)))"
proof (rule rounds_rule[where I = undisturbed and Q = "\<lambda>rs. distinct (ranHashes (snd rs))", OF assms])
  fix s assume "undisturbed s"
  then show "distinct (ranHashes (snd (None, s)))" by (simp add: undisturbed_def)
next
  fix s s' assume "undisturbed s" "whileBody opts world s = Break s'"
  then show "distinct (ranHashes (snd (None, s')))"
    by (auto dest!: whileBody_Break simp: undisturbed_def)
next
  fix s s' assume "undisturbed s" "whileBody opts world s = Return s'"
  then show "distinct (ranHashes (snd (None, s')))"
    by (auto dest!: whileBody_Return simp: undisturbed_def ranHashes_def)
next
  fix s s' err assume "undisturbed s" "whileBody opts world s = Throw err s'"
  then show "distinct (ranHashes (snd (Some err, s')))"
    using round_ranHashes by (fastforce dest!: whileBody_Throw)
next
  fix s s' assume inv: "undisturbed s" and cont: "whileBody opts world s = Continue s'"
  then obtain cps busy codes s'' where
    sc: "scan opts (project world) (needsProcessing s) (processing s) (needsProcessing s) = (cps, busy)"
    and aw: "awaitAll opts world (s\<lparr>processing := busy\<rparr>) cps = (Inr codes, s'')"
    and s': "needsProcessing s' = needsProcessing s''" "tasks s' = tasks s''"
    using whileBody_Continue[OF cont] by (auto split: if_splits)
  have "undisturbed s''" using round_ranHashes[OF inv sc aw] by blast
  then show "undisturbed s'" using s' by (simp add: undisturbed_def ranHashes_def)
qed

lemma hasErrors_filter: "hasErrors r \<longleftrightarrow> filter isError r \<noteq> []"
  by (auto simp: hasErrors_def list_ex_iff filter_empty_conv)

lemma isCycleError_isError: "isCycleError e \<Longrightarrow> isError e"
  by (cases e) auto

lemma cycleReported_filter: "cycleReported r \<longleftrightarrow> list_ex isCycleError (filter isError r)"
  by (auto simp: cycleReported_def list_ex_iff isCycleError_isError)

lemma scan_without_order:
  assumes "\<not> topologicalMode opts" and "es \<noteq> []"
  shows "fst (scan opts proj pending {} es) \<noteq> []"
proof -
  obtain k w others where es: "es = (k, w) # others"
    using assms(2) by (cases es) auto
  show ?thesis using assms(1) unfolding es
    by (auto simp: isRunnable_def topologicalMode_def split: prod.splits)
qed

lemma round_accounted:
  assumes inv: "accounted opts st"
    and cont: "whileBody opts world st = Continue st'"
  shows "accounted opts st'"
proof -
  obtain cps busy codes st'' where
    sc: "scan opts (project world) (needsProcessing st) (processing st) (needsProcessing st) = (cps, busy)"
    and aw: "awaitAll opts world (st\<lparr>processing := busy\<rparr>) cps = (Inr codes, st'')"
    and st': "st' = (if (topological opts \<or> topologicalDev opts) \<and> (\<exists>code \<in> set codes. code \<noteq> 0)
                  then st''\<lparr>report := report st'' @ [ReportError UNNAMED failedMessage]\<rparr>
                  else st'')"
    and noerr: "\<not> hasErrors (report st)"
    using whileBody_Continue[OF cont] by blast
  have errs: "filter isError (report st'') = filter isError (report st)"
    using awaitAll_errors[OF aw] by simp
  have he: "\<not> hasErrors (report st'')" using noerr errs by (simp add: hasErrors_filter)
  have cr: "\<not> cycleReported (report st'')"
    using inv errs by (simp add: accounted_def cycleReported_filter)
  have "busy = processing st \<union> (\<lambda>e. descriptorHash (anchoredDescriptor (snd e))) ` set cps"
    using sc by (rule scan_busy)
  then have pr: "processing st'' = {}"
    using awaitAll_processing[OF aw] inv by (auto simp: accounted_def)
  obtain new where new: "tasks st'' = tasks st @ new" "map outcome new = map Inr codes"
    using awaitAll_tasks[OF aw] by auto
  have old: "\<not> (topologicalMode opts \<and> list_ex taskFailed (tasks st))"
    using inv noerr by (simp add: accounted_def)
  have "list_ex taskFailed new \<longleftrightarrow> (\<exists>code \<in> set codes. code \<noteq> 0)"
  proof -
    have "list_ex taskFailed new \<longleftrightarrow> (\<exists>x \<in> set (map outcome new). case x of Inl err \<Rightarrow> False | Inr code \<Rightarrow> code \<noteq> 0)"
      by (auto simp: list_ex_iff taskFailed_def)
    also have "\<dots> \<longleftrightarrow> (\<exists>code \<in> set codes. code \<noteq> 0)"
      unfolding new(2) by auto
    finally show ?thesis .
  qed
  then have failed: "list_ex taskFailed (tasks st'') \<longleftrightarrow>
      list_ex taskFailed (tasks st) \<or> (\<exists>code \<in> set codes. code \<noteq> 0)"
    unfolding new(1) by (auto simp: list_ex_iff)
  show ?thesis
  proof (cases "(topological opts \<or> topologicalDev opts) \<and> (\<exists>code \<in> set codes. code \<noteq> 0)")
    case True
    then have "st' = st''\<lparr>report := report st'' @ [ReportError UNNAMED failedMessage]\<rparr>"
      using st' by simp
    then show ?thesis using True cr pr failed
      by (auto simp: accounted_def cycleReported_def topologicalMode_def hasErrors_def list_ex_iff)
  next
    case False
    then have "st' = st''" using st' by simp
    then show ?thesis using False cr pr failed he old
      by (auto simp: accounted_def topologicalMode_def)
  qed
qed

lemma rounds_accounted:
  assumes "accounted opts st"
  shows "case rounds opts world st of
           (Some err, st') \<Rightarrow> True
         | (None, st') \<Rightarrow>
             (hasErrors (report st') \<longleftrightarrow>
                cycleReported (report st') \<or> (topologicalMode opts \<and> list_ex taskFailed (tasks st')))
             \<and> (\<not> topologicalMode opts \<longrightarrow> \<not> hasErrors (report st'))"
proof (rule rounds_rule[where I = "accounted opts", OF assms])
  fix s assume "accounted opts s"
  then show "case (None, s) of
           (Some err, st') \<Rightarrow> True
         | (None, st') \<Rightarrow>
             (hasErrors (report st') \<longleftrightarrow>
                cycleReported (report st') \<or> (topologicalMode opts \<and> list_ex taskFailed (tasks st')))
             \<and> (\<not> topologicalMode opts \<longrightarrow> \<not> hasErrors (report st'))"
    by (auto simp: accounted_def)
next
  fix s s' assume "accounted opts s" "whileBody opts world s = Break s'"
  then show "case (None, s') of
           (Some err, st') \<Rightarrow> True
         | (None, st') \<Rightarrow>
             (hasErrors (report st') \<longleftrightarrow>
                cycleReported (report st') \<or> (topologicalMode opts \<and> list_ex taskFailed (tasks st')))
             \<and> (\<not> topologicalMode opts \<longrightarrow> \<not> hasErrors (report st'))"
    by (auto dest!: whileBody_Break simp: accounted_def)
next
  fix s s' assume inv: "accounted opts s" and ne: "needsProcessing s \<noteq> []"
    and ret: "whileBody opts world s = Return s'"
  have empty: "fst (scan opts (project world) (needsProcessing s) (processing s) (needsProcessing s)) = []"
    and s': "s' = s\<lparr>report := report s @ [ReportError CYCLIC_DEPENDENCIES
                                          (cycleMessage world (needsProcessing s))]\<rparr>"
    using whileBody_Return[OF ret] by auto
  have topo: "topologicalMode opts"
    using scan_without_order[OF _ ne, of opts "project world" "needsProcessing s"] empty inv
    by (auto simp: accounted_def)
  show "case (None, s') of
           (Some err, st') \<Rightarrow> True
         | (None, st') \<Rightarrow>
             (hasErrors (report st') \<longleftrightarrow>
                cycleReported (report st') \<or> (topologicalMode opts \<and> list_ex taskFailed (tasks st')))
             \<and> (\<not> topologicalMode opts \<longrightarrow> \<not> hasErrors (report st'))"
    using topo unfolding s' by (simp add: cycleReported_def hasErrors_def)
next
  fix s s' err
  show "case (Some err, s') of
           (Some err, st') \<Rightarrow> True
         | (None, st') \<Rightarrow>
             (hasErrors (report st') \<longleftrightarrow>
                cycleReported (report st') \<or> (topologicalMode opts \<and> list_ex taskFailed (tasks st')))
             \<and> (\<not> topologicalMode opts \<longrightarrow> \<not> hasErrors (report st'))"
    by simp
next
  fix s s' assume "accounted opts s" "whileBody opts world s = Continue s'"
  then show "accounted opts s'" by (rule round_accounted)
qed

lemma suffix_closing_taskEvents: "suffix closing (taskEvents opts world w i)"
  unfolding taskEvents_def closing_def suffix_def by simp

lemma settled_streamsClosed: "settled st \<Longrightarrow> streamsClosed opts (r, st)"
  unfolding settled_def streamsClosed_def by auto

lemma scan_sequential_length:
  assumes "\<not> parallel opts" and "scan opts proj pending busy es = (cps, busy')"
  shows "length cps \<le> 1"
  using assms(2) unfolding scan_sequential[OF assms(1)]
  by (auto split: option.splits)

lemma round_settled:
  assumes inv: "settled st"
    and aw: "awaitAll opts world (st\<lparr>processing := busy\<rparr>) cps = (r, st')"
    and seq: "\<not> parallel opts \<Longrightarrow> length cps \<le> 1"
  shows "case r of Inr codes \<Rightarrow> settled st' | Inl err \<Rightarrow> streamsClosed opts (Some err, st')"
proof -
  obtain new where new: "tasks st' = tasks st @ new"
    "length new = length cps"
    "\<forall>t \<in> set new. \<exists>i. events t = taskEvents opts world (task_workspace t) i"
    "(case r of Inr codes \<Rightarrow> map outcome new = map Inr codes
      | Inl err \<Rightarrow> (\<exists>t \<in> set new. outcome t = Inl err))"
    using awaitAll_tasks[OF aw] by auto
  have ev: "suffix closing (events t)" if "t \<in> set (tasks st')" for t
    using that new(1,3) inv suffix_closing_taskEvents by (auto simp: settled_def)
  show ?thesis
  proof (cases r)
    case (Inr codes)
    have "\<exists>code. outcome t = Inr code" if "t \<in> set new" for t
    proof -
      have "outcome t \<in> set (map outcome new)" using that by simp
      moreover have "map outcome new = map Inr codes" using new(4) Inr by simp
      ultimately have "outcome t \<in> set (map Inr codes)" by simp
      then show ?thesis by auto
    qed
    then show ?thesis using Inr ev new(1) inv by (auto simp: settled_def)
  next
    case (Inl err)
    then obtain thrower where th: "thrower \<in> set new" "outcome thrower = Inl err"
      using new(4) by auto
    have some: "\<exists>t' \<in> set (tasks st'). outcome t' = Inl err"
      using th new(1) by auto
    have own: "e = err \<and> t = last (tasks st')"
      if t: "t \<in> set (tasks st')" and o: "outcome t = Inl e" and np: "\<not> parallel opts" for t e
    proof -
      have "t \<notin> set (tasks st)" using o inv by (auto simp: settled_def)
      then have tn: "t \<in> set new" using t new(1) by auto
      have "length new \<le> 1" using seq[OF np] new(2) by simp
      then obtain x where x: "new = [x]" using tn by (cases new) auto
      then have "t = x" "thrower = x" using tn th(1) by auto
      then show ?thesis using th(2) o x new(1) by simp
    qed
    show ?thesis using Inl ev some own unfolding streamsClosed_def by auto
  qed
qed

lemma rounds_streamsClosed:
  assumes "settled st"
  shows "streamsClosed opts (rounds opts world st)"
proof (rule rounds_rule[where I = settled, OF assms])
  fix s assume "settled s"
  then show "streamsClosed opts (None, s)" by (rule settled_streamsClosed)
next
  fix s s' assume "settled s" "whileBody opts world s = Break s'"
  then show "streamsClosed opts (None, s')"
    by (auto dest!: whileBody_Break intro: settled_streamsClosed)
next
  fix s s' assume "settled s" "whileBody opts world s = Return s'"
  then show "streamsClosed opts (None, s')"
    by (auto dest!: whileBody_Return intro!: settled_streamsClosed simp: settled_def)
next
  fix s s' err assume inv: "settled s" and th: "whileBody opts world s = Throw err s'"
  then obtain cps busy where
    sc: "scan opts (project world) (needsProcessing s) (processing s) (needsProcessing s) = (cps, busy)"
    and aw: "awaitAll opts world (s\<lparr>processing := busy\<rparr>) cps = (Inl err, s')"
    using whileBody_Throw[OF th] by blast
  have "\<not> parallel opts \<Longrightarrow> length cps \<le> 1"
    using scan_sequential_length[OF _ sc] .
  from round_settled[OF inv aw this] show "streamsClosed opts (Some err, s')" by simp
next
  fix s s' assume inv: "settled s" and cont: "whileBody opts world s = Continue s'"
  then obtain cps busy codes s'' where
    sc: "scan opts (project world) (needsProcessing s) (processing s) (needsProcessing s) = (cps, busy)"
    and aw: "awaitAll opts world (s\<lparr>processing := busy\<rparr>) cps = (Inr codes, s'')"
    and s': "tasks s' = tasks s''"
    using whileBody_Continue[OF cont] by (auto split: if_splits)
  have "\<not> parallel opts \<Longrightarrow> length cps \<le> 1"
    using scan_sequential_length[OF _ sc] .
  from round_settled[OF inv aw this] show "settled s'" using s' by (simp add: settled_def)
qed

text \<open>A round that rejects has run every task it dispatched, and the loop ends with it.\<close>

lemma rounds_Throw:
  assumes "needsProcessing st \<noteq> []" and "whileBody opts world st = Throw err st'"
  shows "rounds opts world st = (Some err, st')
       \<and> length (tasks st') = length (tasks st)
            + length (fst (scan opts (project world) (needsProcessing st) (processing st)
                             (needsProcessing st)))
       \<and> (\<exists>t \<in> set (drop (length (tasks st)) (tasks st')). outcome t = Inl err)"
proof -
  obtain cps busy where
    sc: "scan opts (project world) (needsProcessing st) (processing st) (needsProcessing st) = (cps, busy)"
    and aw: "awaitAll opts world (st\<lparr>processing := busy\<rparr>) cps = (Inl err, st')"
    using whileBody_Throw[OF assms(2)] by blast
  obtain new where new: "tasks st' = tasks st @ new" "length new = length cps"
    "\<exists>t \<in> set new. outcome t = Inl err"
    using awaitAll_tasks[OF aw] by auto
  have "rounds opts world st = (Some err, st')"
    using assms by (subst rounds.simps) simp
  then show ?thesis using new sc by simp
qed

lemma sublist_join: "x \<in> set xs \<Longrightarrow> sublist x (join sep xs)"
proof (induction sep xs rule: join.induct)
  case (1 sep)
  then show ?case by simp
next
  case (2 sep y)
  then show ?case by simp
next
  case (3 sep y z others)
  show ?case
  proof (cases "x = y")
    case True
    then show ?thesis by simp
  next
    case False
    then have "sublist x (join sep (z # others))" using 3 by simp
    then obtain ps ss where "join sep (z # others) = ps @ x @ ss" by (auto simp: sublist_def)
    then have "join sep (y # z # others) = (y @ sep @ ps) @ x @ ss" by simp
    then show ?thesis unfolding sublist_def by blast
  qed
qed

lemma cycleMessage_names:
  assumes "e \<in> set pending"
  shows "sublist (prettyLocator world (anchoredLocator (snd e))) (cycleMessage world pending)"
proof -
  have "prettyLocator world (anchoredLocator (snd e))
      \<in> set (map (\<lambda>workspace. prettyLocator world (anchoredLocator workspace)) (map snd pending))"
    using assms by auto
  then have "sublist (prettyLocator world (anchoredLocator (snd e)))
      (join '', '' (map (\<lambda>workspace. prettyLocator world (anchoredLocator workspace)) (map snd pending)))"
    by (rule sublist_join)
  then obtain ps ss where "join '', '' (map (\<lambda>workspace. prettyLocator world (anchoredLocator workspace)) (map snd pending))
      = ps @ prettyLocator world (anchoredLocator (snd e)) @ ss"
    by (auto simp: sublist_def)
  then have "cycleMessage world pending
      = (''Dependency cycle detected ('' @ ps) @ prettyLocator world (anchoredLocator (snd e)) @ (ss @ '')'')"
    by (simp add: cycleMessage_def)
  then show ?thesis unfolding sublist_def by blast
qed

lemma rounds_cycle:
  assumes "needsProcessing st \<noteq> []" and "\<not> hasErrors (report st)"
    and "fst (scan opts (project world) (needsProcessing st) (processing st) (needsProcessing st)) = []"
  shows "rounds opts world st = (None, cycleState world st)"
proof -
  have "whileBody opts world st = Return (cycleState world st)"
    using assms(2,3) unfolding whileBody_def cycleState_def reportError_def
    by (auto split: prod.splits)
  then show ?thesis using assms(1) by (subst rounds.simps) simp
qed

lemma mutual_dependency_blocks:
  assumes mode: "topological opts \<or> topologicalDev opts"
    and dx: "dX \<in> snd ` set (dependencies (manifest X))"
    and rx: "Y \<in> set (findWorkspacesByDescriptor proj dX)"
    and dy: "dY \<in> snd ` set (dependencies (manifest Y))"
    and ry: "X \<in> set (findWorkspacesByDescriptor proj dY)"
  shows "fst (scan opts proj (seed [] [X, Y]) busy (seed [] [X, Y])) = []"
proof -
  let ?pending = "seed [] [X, Y]"
  have keys: "fst ` set ?pending = {locatorHash (anchoredLocator X), locatorHash (anchoredLocator Y)}"
    using keys_seed[of "[]" "[X, Y]"] by auto
  have vals: "snd ` set ?pending \<subseteq> {X, Y}"
    by (auto split: if_splits)
  have bx: "dependencyPending opts proj ?pending X"
    unfolding dependencyPending_def relevantDescriptors_def keys using dx rx by auto
  have "dependencyPending opts proj ?pending Y"
    unfolding dependencyPending_def relevantDescriptors_def keys using dy ry by auto
  with bx have blocked: "\<forall>e \<in> set ?pending. \<not> isRunnable opts proj ?pending (snd e)"
    using vals isRunnable_topological[OF mode] by auto
  obtain cps busy' where sc: "scan opts proj ?pending busy ?pending = (cps, busy')"
    by (cases "scan opts proj ?pending busy ?pending")
  have "cps = []"
  proof (rule ccontr)
    assume "cps \<noteq> []"
    then obtain k w where kw: "(k, w) \<in> set cps" by (cases cps) auto
    then have "isRunnable opts proj ?pending w" using scan_dispatched[OF sc] by blast
    moreover have "(k, w) \<in> set ?pending" using scan_subset[OF sc] kw by blast
    ultimately show False using blocked by force
  qed
  then show ?thesis using sc by simp
qed

lemma dependency_first_scan:
  assumes mode: "topological opts \<or> topologicalDev opts"
    and noDeps: "dependencies (manifest A) = []" "devDependencies (manifest A) = []"
    and distinctHashes: "locatorHash (anchoredLocator A) \<noteq> locatorHash (anchoredLocator B)"
    and dep: "dB \<in> snd ` set (dependencies (manifest B))"
    and res: "A \<in> set (findWorkspacesByDescriptor proj dB)"
    and ord: "order = [A, B] \<or> order = [B, A]"
  shows "scan opts proj (seed [] order) {} (seed [] order)
           = ([(locatorHash (anchoredLocator A), A)], {descriptorHash (anchoredDescriptor A)})"
proof -
  let ?pending = "seed [] order"
  have keys: "locatorHash (anchoredLocator A) \<in> fst ` set ?pending"
    using keys_seed[of "[]" order] ord by auto
  have ra: "isRunnable opts proj ?pending A"
    using noDeps by (simp add: isRunnable_def resolvedSet_def)
  have "dependencyPending opts proj ?pending B"
    unfolding dependencyPending_def relevantDescriptors_def using dep res keys by auto
  then have rb: "\<not> isRunnable opts proj ?pending B"
    using isRunnable_topological[OF mode] by simp
  from ord show ?thesis
  proof
    assume o: "order = [A, B]"
    have pend: "?pending = [(locatorHash (anchoredLocator A), A), (locatorHash (anchoredLocator B), B)]"
      using distinctHashes o by simp
    show ?thesis using ra rb unfolding pend[symmetric]
      by (subst (2) pend) simp
  next
    assume o: "order = [B, A]"
    have pend: "?pending = [(locatorHash (anchoredLocator B), B), (locatorHash (anchoredLocator A), A)]"
      using distinctHashes o by simp
    show ?thesis using ra rb unfolding pend[symmetric]
      by (subst (2) pend) simp
  qed
qed

lemma selectLoop_filteredCandidates:
  "selectLoop opts world scriptName workspaces candidates = Inr selected \<Longrightarrow>
     selected = workspaces @ filteredCandidates opts world scriptName candidates"
proof (induction candidates arbitrary: workspaces)
  case Nil
  then show ?case by (simp add: filteredCandidates_def)
next
  case (Cons w candidates)
  show ?case
  proof (cases "lacksScript scriptName w")
    case True
    then show ?thesis using Cons by (simp add: filteredCandidates_def)
  next
    case False
    then obtain isSelf where g: "selfGuard opts world scriptName w = Inr isSelf"
      using Cons.prems by (cases "selfGuard opts world scriptName w") auto
    then have self: "isSelf = isOriginating opts world scriptName w"
      by (auto simp: selfGuard_def isOriginating_def requestedIsTrigger_def
               split: if_splits option.splits)
    show ?thesis using Cons.prems False g unfolding self
      by (auto simp: filteredCandidates_def split: if_splits dest!: Cons.IH)
  qed
qed

lemma selectLoop_returns:
  assumes "cwdWorkspace world \<noteq> None \<or> \<not> requestedIsTrigger opts world scriptName"
  shows "\<exists>selected. selectLoop opts world scriptName workspaces candidates = Inr selected"
proof (induction candidates arbitrary: workspaces)
  case Nil
  then show ?case by simp
next
  case (Cons w candidates)
  have "\<exists>isSelf. selfGuard opts world scriptName w = Inr isSelf"
    using assms by (auto simp: selfGuard_def requestedIsTrigger_def split: option.splits)
  then show ?case using Cons by auto
qed

lemma selectLoop_TypeError:
  assumes "cwdWorkspace world = None" and "requestedIsTrigger opts world scriptName"
  shows "selectLoop opts world scriptName workspaces candidates
           = (if list_ex (\<lambda>w. \<not> lacksScript scriptName w) candidates
              then Inl TypeError else Inr workspaces)"
proof (induction candidates arbitrary: workspaces)
  case Nil
  then show ?case by simp
next
  case (Cons w candidates)
  have "selfGuard opts world scriptName w = Inl TypeError"
    using assms by (simp add: selfGuard_def requestedIsTrigger_def)
  then show ?case using Cons by simp
qed

lemma action_scheduled:
  assumes "all opts \<or> cwdWorkspace world \<noteq> None"
    and "parse world (command opts # rest opts) = (commandPath, args)"
    and "commandPath \<noteq> []"
    and "getWorkspaceChildrenRecursive (stackDepth world)
           (if all opts then topLevelWorkspace (project world) else the (cwdWorkspace world))
           (project world) = Some descendants"
    and "selectLoop opts world (getScriptName commandPath args) []
           ((if all opts then topLevelWorkspace (project world) else the (cwdWorkspace world))
              # descendants) = Inr workspaces"
    and "rounds (effectiveOptions opts) world (initState\<lparr>needsProcessing := seed [] workspaces\<rparr>)
           = (r, st)"
  shows "action opts world
           = (case r of Some err \<Rightarrow> Threw err st | None \<Rightarrow> Returned (exitCode (report st)) st)"
proof -
  have i: "needsProcessing initState = []" by (simp add: initState_def)
  show ?thesis
    using assms i
    by (cases r) (auto simp add: action_def Let_def StreamReport_start_def effectiveOptions_def
          simp del: selectLoop.simps)
qed

subsection \<open>Eligibility under the topological modes\<close>

text \<open>
  Claim C1. In a round under \<open>topological\<close> or \<open>topologicalDev\<close>, an entry of the
  pending map is dispatched (put into the processing set and among the promises of the
  round) only if no workspace the resolver returns for any of its relevant descriptors
  (the dependencies, and the development dependencies too under \<open>topologicalDev\<close>) is
  still a key of the pending map. An entry with such a dependency is not dispatched, and
  it is still pending when the round goes on to the next one.
\<close>

theorem topological_dispatch_waits_for_pending_dependencies:
  assumes "topological opts \<or> topologicalDev opts"
    and "distinct (map fst (needsProcessing st))"
    and "scan opts (project world) (needsProcessing st) (processing st) (needsProcessing st)
           = (commandPromises, busy)"
    and "(identHash, workspace) \<in> set (needsProcessing st)"
  shows "((identHash, workspace) \<in> set commandPromises \<longrightarrow>
            descriptorHash (anchoredDescriptor workspace) \<in> busy
            \<and> \<not> dependencyPending opts (project world) (needsProcessing st) workspace)
       \<and> (dependencyPending opts (project world) (needsProcessing st) workspace \<longrightarrow>
            (identHash, workspace) \<notin> set commandPromises
            \<and> (\<forall>st'. whileBody opts world st = Continue st' \<longrightarrow>
                  (identHash, workspace) \<in> set (needsProcessing st')))"
proof -
  have disp: "(identHash, workspace) \<in> set commandPromises \<Longrightarrow>
      descriptorHash (anchoredDescriptor workspace) \<in> busy
      \<and> \<not> dependencyPending opts (project world) (needsProcessing st) workspace"
    using scan_dispatched[OF assms(3)] isRunnable_topological[OF assms(1)] by blast
  have stays: "(identHash, workspace) \<in> set (needsProcessing st')"
    if notin: "(identHash, workspace) \<notin> set commandPromises"
      and cont: "whileBody opts world st = Continue st'" for st'
  proof -
    obtain codes st'' where aw: "awaitAll opts world (st\<lparr>processing := busy\<rparr>) commandPromises = (Inr codes, st'')"
      and np: "needsProcessing st' = needsProcessing st''"
      using whileBody_Continue[OF cont] assms(3) by (auto split: if_splits)
    have "needsProcessing st'' = foldl Map_delete (needsProcessing st) (map fst commandPromises)"
      using awaitAll_needsProcessing[OF aw] by simp
    moreover have "identHash \<notin> set (map fst commandPromises)"
      using distinct_keys_notin[OF assms(2) scan_subset[OF assms(3)] assms(4) notin] by simp
    ultimately show ?thesis using Map_delete_keeps[OF assms(4)] np by simp
  qed
  show ?thesis using disp stays by blast
qed

text \<open>
  The project of \<open>a\<close> and \<open>b\<close>, where \<open>b\<close> depends on \<open>a\<close>: the first round dispatches
  \<open>a\<close> alone, and \<open>b\<close> is pending afterwards.
\<close>

theorem topological_dispatch_waits_for_pending_dependencies_witness:
  "(topological (optsAB True) \<or> topologicalDev (optsAB True))
   \<and> distinct (map fst (needsProcessing pendingAB))
   \<and> scan (optsAB True) (project (worldAB [])) (needsProcessing pendingAB) (processing pendingAB)
        (needsProcessing pendingAB) = ([(''al-a'', wsA)], {''ad-a''})
   \<and> (''al-b'', wsB) \<in> set (needsProcessing pendingAB)
   \<and> dependencyPending (optsAB True) (project (worldAB [])) (needsProcessing pendingAB) wsB
   \<and> (''al-b'', wsB) \<notin> set [(''al-a'', wsA)]
   \<and> (\<exists>st'. whileBody (optsAB True) (worldAB []) pendingAB = Continue st'
          \<and> (''al-b'', wsB) \<in> set (needsProcessing st'))"
proof -
  have h1: "topological (optsAB True) \<or> topologicalDev (optsAB True)"
    by (simp add: ab_defs fixture_defs)
  have h2: "distinct (map fst (needsProcessing pendingAB))"
    by (simp add: ab_defs fixture_defs initState_def)
  have h3: "scan (optsAB True) (project (worldAB [])) (needsProcessing pendingAB)
      (processing pendingAB) (needsProcessing pendingAB) = ([(''al-a'', wsA)], {''ad-a''})"
    by (simp add: ab_defs fixture_defs model_defs)
  have h4: "(''al-b'', wsB) \<in> set (needsProcessing pendingAB)"
    by (simp add: ab_defs fixture_defs initState_def)
  have h5: "dependencyPending (optsAB True) (project (worldAB [])) (needsProcessing pendingAB) wsB"
    by (simp add: dependencyPending_def relevantDescriptors_def ab_defs fixture_defs initState_def)
  have h6: "\<exists>st'. whileBody (optsAB True) (worldAB []) pendingAB = Continue st'"
    by (simp add: ab_defs fixture_defs model_defs Let_def)
  show ?thesis
    using topological_dispatch_waits_for_pending_dependencies[OF h1 h2 h3 h4] h1 h2 h3 h4 h5 h6
    by blast
qed

subsection \<open>Cycles\<close>

text \<open>
  Claim C2. When the scan of a round dispatches nothing while entries are pending, the
  loop ends at once with the error \<open>CYCLIC_DEPENDENCIES\<close> added to the report: no task is
  run, the pending map is left as it is, the exit code of the report is not 0, and the
  message contains the pretty name of every pending workspace. In particular two
  workspaces that depend on each other, scheduled alone under a topological mode, end in
  that error in the first round, with both names in the message and no task run.
\<close>

theorem cycle_reported_and_run_ends:
  "(needsProcessing st \<noteq> [] \<and> \<not> hasErrors (report st)
    \<and> fst (scan opts (project world) (needsProcessing st) (processing st) (needsProcessing st)) = []
    \<longrightarrow> rounds opts world st = (None, cycleState world st)
        \<and> tasks (cycleState world st) = tasks st
        \<and> needsProcessing (cycleState world st) = needsProcessing st
        \<and> exitCode (report (cycleState world st)) \<noteq> 0
        \<and> (\<forall>e \<in> set (needsProcessing st).
              sublist (prettyLocator world (anchoredLocator (snd e)))
                      (cycleMessage world (needsProcessing st))))
   \<and> ((topological opts \<or> topologicalDev opts)
      \<and> locatorHash (anchoredLocator X) \<noteq> locatorHash (anchoredLocator Y)
      \<and> dX \<in> snd ` set (dependencies (manifest X))
      \<and> Y \<in> set (findWorkspacesByDescriptor (project world) dX)
      \<and> dY \<in> snd ` set (dependencies (manifest Y))
      \<and> X \<in> set (findWorkspacesByDescriptor (project world) dY)
    \<longrightarrow> (\<exists>final. rounds opts world (initState\<lparr>needsProcessing := seed [] [X, Y]\<rparr>) = (None, final)
          \<and> tasks final = []
          \<and> report final = [ReportError CYCLIC_DEPENDENCIES
               (''Dependency cycle detected ('' @ prettyLocator world (anchoredLocator X) @ '', ''
                  @ prettyLocator world (anchoredLocator Y) @ '')'')]
          \<and> exitCode (report final) \<noteq> 0))"
proof (rule conjI; rule impI)
  assume a: "needsProcessing st \<noteq> [] \<and> \<not> hasErrors (report st)
    \<and> fst (scan opts (project world) (needsProcessing st) (processing st) (needsProcessing st)) = []"
  then have r: "rounds opts world st = (None, cycleState world st)"
    by (intro rounds_cycle) auto
  have "exitCode (report (cycleState world st)) \<noteq> 0"
    by (simp add: cycleState_def exitCode_def hasErrors_def)
  then show "rounds opts world st = (None, cycleState world st)
        \<and> tasks (cycleState world st) = tasks st
        \<and> needsProcessing (cycleState world st) = needsProcessing st
        \<and> exitCode (report (cycleState world st)) \<noteq> 0
        \<and> (\<forall>e \<in> set (needsProcessing st).
              sublist (prettyLocator world (anchoredLocator (snd e)))
                      (cycleMessage world (needsProcessing st)))"
    using r cycleMessage_names by (simp add: cycleState_def)
next
  assume b: "(topological opts \<or> topologicalDev opts)
      \<and> locatorHash (anchoredLocator X) \<noteq> locatorHash (anchoredLocator Y)
      \<and> dX \<in> snd ` set (dependencies (manifest X))
      \<and> Y \<in> set (findWorkspacesByDescriptor (project world) dX)
      \<and> dY \<in> snd ` set (dependencies (manifest Y))
      \<and> X \<in> set (findWorkspacesByDescriptor (project world) dY)"
  let ?st = "initState\<lparr>needsProcessing := seed [] [X, Y]\<rparr>"
  have sc: "fst (scan opts (project world) (needsProcessing ?st) (processing ?st) (needsProcessing ?st)) = []"
    using mutual_dependency_blocks[of opts dX X Y "project world" dY] b by simp
  have pend: "needsProcessing ?st = [(locatorHash (anchoredLocator X), X), (locatorHash (anchoredLocator Y), Y)]"
    using b by simp
  have "rounds opts world ?st = (None, cycleState world ?st)"
    using sc pend by (intro rounds_cycle) (simp_all add: initState_def hasErrors_def)
  moreover have "tasks (cycleState world ?st) = []"
    by (simp add: cycleState_def initState_def)
  moreover have "report (cycleState world ?st) = [ReportError CYCLIC_DEPENDENCIES
               (''Dependency cycle detected ('' @ prettyLocator world (anchoredLocator X) @ '', ''
                  @ prettyLocator world (anchoredLocator Y) @ '')'')]"
    unfolding cycleState_def pend cycleMessage_def by (simp add: initState_def)
  moreover have "exitCode (report (cycleState world ?st)) \<noteq> 0"
    by (simp add: cycleState_def exitCode_def hasErrors_def)
  ultimately show "\<exists>final. rounds opts world ?st = (None, final)
          \<and> tasks final = []
          \<and> report final = [ReportError CYCLIC_DEPENDENCIES
               (''Dependency cycle detected ('' @ prettyLocator world (anchoredLocator X) @ '', ''
                  @ prettyLocator world (anchoredLocator Y) @ '')'')]
          \<and> exitCode (report final) \<noteq> 0"
    by blast
qed

text \<open>
  The project of \<open>x\<close> and \<open>y\<close>, which depend on each other: the whole command returns 1
  and runs nothing.
\<close>

theorem cycle_reported_and_run_ends_witness:
  "needsProcessing pendingXY \<noteq> [] \<and> \<not> hasErrors (report pendingXY)
   \<and> fst (scan (optsAB True) (project worldXY) (needsProcessing pendingXY) (processing pendingXY)
             (needsProcessing pendingXY)) = []
   \<and> (topological (optsAB True) \<or> topologicalDev (optsAB True))
   \<and> locatorHash (anchoredLocator wsX) \<noteq> locatorHash (anchoredLocator wsY)
   \<and> snd (depOn ''y'') \<in> snd ` set (dependencies (manifest wsX))
   \<and> wsY \<in> set (findWorkspacesByDescriptor (project worldXY) (snd (depOn ''y'')))
   \<and> snd (depOn ''x'') \<in> snd ` set (dependencies (manifest wsY))
   \<and> wsX \<in> set (findWorkspacesByDescriptor (project worldXY) (snd (depOn ''x'')))
   \<and> rounds (optsAB True) worldXY pendingXY = (None, cycleState worldXY pendingXY)
   \<and> action (optsAB True) worldXY = Returned 1 (cycleState worldXY pendingXY)
   \<and> tasks (cycleState worldXY pendingXY) = []
   \<and> report (cycleState worldXY pendingXY)
       = [ReportError CYCLIC_DEPENDENCIES ''Dependency cycle detected (x, y)'']"
proof -
  have h1: "needsProcessing pendingXY \<noteq> []"
    by (simp add: more_fixture_defs fixture_defs initState_def)
  have h2: "\<not> hasErrors (report pendingXY)"
    by (simp add: more_fixture_defs initState_def hasErrors_def)
  have h3: "fst (scan (optsAB True) (project worldXY) (needsProcessing pendingXY)
      (processing pendingXY) (needsProcessing pendingXY)) = []"
    by (simp add: ab_defs more_fixture_defs fixture_defs model_defs)
  have h4: "topological (optsAB True) \<or> topologicalDev (optsAB True)"
    by (simp add: ab_defs fixture_defs)
  have h5: "locatorHash (anchoredLocator wsX) \<noteq> locatorHash (anchoredLocator wsY)"
    by (simp add: fixture_defs)
  have h6: "snd (depOn ''y'') \<in> snd ` set (dependencies (manifest wsX))"
    "wsY \<in> set (findWorkspacesByDescriptor (project worldXY) (snd (depOn ''y'')))"
    "snd (depOn ''x'') \<in> snd ` set (dependencies (manifest wsY))"
    "wsX \<in> set (findWorkspacesByDescriptor (project worldXY) (snd (depOn ''x'')))"
    by (simp_all add: more_fixture_defs fixture_defs)
  note inst = cycle_reported_and_run_ends[of pendingXY "optsAB True" worldXY wsX wsY
      "snd (depOn ''y'')" "snd (depOn ''x'')"]
  have r: "rounds (optsAB True) worldXY pendingXY = (None, cycleState worldXY pendingXY)"
    using inst h1 h2 h3 by blast
  have t: "tasks (cycleState worldXY pendingXY) = []"
    by (simp add: cycleState_def more_fixture_defs initState_def)
  have m: "report (cycleState worldXY pendingXY)
       = [ReportError CYCLIC_DEPENDENCIES ''Dependency cycle detected (x, y)'']"
    by (simp add: cycleState_def cycleMessage_def more_fixture_defs fixture_defs initState_def)
  have e: "effectiveOptions (optsAB True) = optsAB True"
    by (simp add: effectiveOptions_def ab_defs fixture_defs)
  have a: "action (optsAB True) worldXY
      = (case None of Some err \<Rightarrow> Threw err (cycleState worldXY pendingXY)
         | None \<Rightarrow> Returned (exitCode (report (cycleState worldXY pendingXY)))
                     (cycleState worldXY pendingXY))"
  proof (rule action_scheduled[where commandPath = "[''run'']" and args = "[''build'']"
        and descendants = "[wsY]" and workspaces = "[wsX, wsY]"])
    show "all (optsAB True) \<or> cwdWorkspace worldXY \<noteq> None"
      by (simp add: more_fixture_defs fixture_defs)
    show "parse worldXY (command (optsAB True) # rest (optsAB True)) = ([''run''], [''build''])"
      by (simp add: ab_defs more_fixture_defs fixture_defs)
    show "[''run''] \<noteq> []" by simp
    show "getWorkspaceChildrenRecursive (stackDepth worldXY)
           (if all (optsAB True) then topLevelWorkspace (project worldXY)
            else the (cwdWorkspace worldXY)) (project worldXY) = Some [wsY]"
      by (simp add: ab_defs more_fixture_defs fixture_defs eval_nat_numeral)
    show "selectLoop (optsAB True) worldXY (getScriptName [''run''] [''build'']) []
           ((if all (optsAB True) then topLevelWorkspace (project worldXY)
             else the (cwdWorkspace worldXY)) # [wsY]) = Inr [wsX, wsY]"
      by (simp add: ab_defs more_fixture_defs fixture_defs model_defs)
    show "rounds (effectiveOptions (optsAB True)) worldXY
        (initState\<lparr>needsProcessing := seed [] [wsX, wsY]\<rparr>) = (None, cycleState worldXY pendingXY)"
      using r unfolding e by (simp add: pendingXY_def)
  qed
  have "exitCode (report (cycleState worldXY pendingXY)) = 1"
    unfolding m by (simp add: exitCode_def hasErrors_def)
  then have a': "action (optsAB True) worldXY = Returned 1 (cycleState worldXY pendingXY)"
    using a by simp
  show ?thesis using h1 h2 h3 h4 h5 h6 r a' t m by simp
qed

subsection \<open>Candidate selection\<close>

text \<open>
  Claim C3, at an input where the code departs from it. With \<open>all\<close> set, no workspace
  at the current directory, and the command \<open>lint\<close> run from a \<open>lint\<close> script, the claim
  expects the list of both workspaces (no script name is implied, there is no originating
  workspace to drop, and both lists of names are empty); the loop raises a \<open>TypeError\<close>
  instead, and so does the command.
\<close>

theorem selector_raises_where_a_list_is_expected:
  "all (mkOptions ''lint'' [] True False False)
   \<and> cwdWorkspace (worldOutside ''lint'') = None
   \<and> getScriptName [''lint''] [] = None
   \<and> filteredCandidates (mkOptions ''lint'' [] True False False) (worldOutside ''lint'') None
        [wsA, wsB] = [wsA, wsB]
   \<and> selectLoop (mkOptions ''lint'' [] True False False) (worldOutside ''lint'') None []
        [wsA, wsB] = Inl TypeError
   \<and> action (mkOptions ''lint'' [] True False False) (worldOutside ''lint'')
       = Threw TypeError initState"
  by code_simp

subsection \<open>The exit code\<close>

text \<open>
  Claim C4, as far as it holds. When the command returns, the exit code is the one of the
  report; it is not 0 exactly when a cycle was reported or, under a topological mode, a
  task that ran came back with an exit code other than 0; outside the topological modes
  it is 0.
\<close>

theorem returned_exit_code_reflects_cycle_or_topological_failure:
  assumes "action opts world = Returned code st"
  shows "code = exitCode (report st)
       \<and> (code \<noteq> 0 \<longleftrightarrow>
            cycleReported (report st)
            \<or> ((topological opts \<or> topologicalDev opts) \<and> list_ex taskFailed (tasks st)))
       \<and> (\<not> topological opts \<and> \<not> topologicalDev opts \<longrightarrow> code = 0)"
proof (cases opts world rule: action_cases)
  case (early err)
  then show ?thesis using assms by simp
next
  case (scheduled ws r st')
  have r: "r = None" and st: "st' = st" and code: "code = exitCode (report st)"
    using scheduled(2) assms by (auto split: option.splits)
  have "accounted (effectiveOptions opts) (initState\<lparr>needsProcessing := seed [] ws\<rparr>)"
    by (simp add: accounted_def initState_def cycleReported_def hasErrors_def)
  from rounds_accounted[OF this, of world]
  have "(hasErrors (report st) \<longleftrightarrow>
                cycleReported (report st) \<or> (topologicalMode opts \<and> list_ex taskFailed (tasks st)))
             \<and> (\<not> topologicalMode opts \<longrightarrow> \<not> hasErrors (report st))"
    unfolding scheduled(1) r st by (auto simp: topologicalMode_def)
  then show ?thesis using code by (auto simp: exitCode_def topologicalMode_def)
qed

text \<open>
  The project of \<open>a\<close> and \<open>b\<close> under \<open>topological\<close>, where \<open>a\<close> exits with 1.
\<close>

theorem returned_exit_code_reflects_cycle_or_topological_failure_witness:
  "(case action (optsAB False) (worldAB [''a'']) of
      Returned code st \<Rightarrow>
        code = 1 \<and> code = exitCode (report st) \<and> \<not> cycleReported (report st)
        \<and> (topological (optsAB False) \<or> topologicalDev (optsAB False))
        \<and> list_ex taskFailed (tasks st)
    | Threw err st \<Rightarrow> False)"
proof -
  have "(case action (optsAB False) (worldAB [''a'']) of
      Returned code st \<Rightarrow> code = 1 \<and> \<not> cycleReported (report st)
    | Threw err st \<Rightarrow> False)"
    by code_simp
  then obtain st where st: "action (optsAB False) (worldAB [''a'']) = Returned 1 st"
    and nc: "\<not> cycleReported (report st)"
    by (cases "action (optsAB False) (worldAB [''a''])") auto
  from returned_exit_code_reflects_cycle_or_topological_failure[OF st] nc
  show ?thesis unfolding st by simp
qed

text \<open>
  Claim C4 as stated fails where the current directory belongs to no workspace and
  \<open>all\<close> is off: the command throws \<open>WorkspaceRequiredError\<close> before a report exists;
  nothing was reported, and the exit code of an empty report is 0.
\<close>

theorem exit_code_not_from_report_counterexample:
  "\<not> all (mkOptions ''run'' [''build''] False False False)
   \<and> cwdWorkspace (worldOutside ''test'') = None
   \<and> action (mkOptions ''run'' [''build''] False False False) (worldOutside ''test'')
       = Threw WorkspaceRequiredError initState
   \<and> report initState = []
   \<and> exitCode (report initState) = 0"
  by code_simp

subsection \<open>A failed dependency\<close>

text \<open>
  Claim C5. Two workspaces are scheduled under a topological mode, in either order:
  \<open>A\<close> without dependencies and \<open>B\<close>, which depends on \<open>A\<close>; the command exits with a
  code other than 0 in \<open>A\<close>. The first round runs \<open>A\<close> alone and reports the error of the unsatisfied
  graph; the second round leaves the loop at the check \<open>hasErrors\<close>; \<open>B\<close> is still
  pending and has not run, and the exit code of the report is not 0.
\<close>

theorem failed_dependency_stops_before_dependent:
  assumes mode: "topological opts \<or> topologicalDev opts"
    and noDeps: "dependencies (manifest A) = []" "devDependencies (manifest A) = []"
    and distinctHashes: "locatorHash (anchoredLocator A) \<noteq> locatorHash (anchoredLocator B)"
    and dep: "dB \<in> snd ` set (dependencies (manifest B))"
    and res: "A \<in> set (findWorkspacesByDescriptor (project world) dB)"
    and fails: "run world A = Resolved (Some code) emptyStdout emptyStderr" "code \<noteq> 0"
    and ord: "order = [A, B] \<or> order = [B, A]"
  shows "\<exists>st1. whileBody opts world (initState\<lparr>needsProcessing := seed [] order\<rparr>) = Continue st1
           \<and> map task_workspace (tasks st1) = [A]
           \<and> map outcome (tasks st1) = [Inr code]
           \<and> needsProcessing st1 = [(locatorHash (anchoredLocator B), B)]
           \<and> last (report st1) = ReportError UNNAMED failedMessage
           \<and> whileBody opts world st1 = Break st1
           \<and> rounds opts world (initState\<lparr>needsProcessing := seed [] order\<rparr>) = (None, st1)
           \<and> exitCode (report st1) \<noteq> 0"
proof -
  let ?st0 = "initState\<lparr>needsProcessing := seed [] order\<rparr>"
  let ?hA = "locatorHash (anchoredLocator A)"
  obtain task rep where rc: "runCommand opts world [] A (Suc 0) = (task, rep)"
    by (cases "runCommand opts world [] A (Suc 0)")
  have tw: "task_workspace task = A"
    using runCommand_workspace[of opts world "[]" A "Suc 0"] rc by simp
  have oc: "outcome task = Inr code"
    using runCommand_outcome[of opts world "[]" A "Suc 0"] rc fails(1) by simp
  have he: "\<not> hasErrors rep"
    using runCommand_hasErrors[of opts world "[]" A "Suc 0"] rc by (simp add: hasErrors_def)
  have ne: "seed [] order \<noteq> []"
    using ord by (auto split: if_splits)
  have del: "Map_delete (seed [] order) ?hA = [(locatorHash (anchoredLocator B), B)]"
    using ord distinctHashes by (auto simp: Map_delete_def)
  have sc: "scan opts (project world) (needsProcessing ?st0) (processing ?st0) (needsProcessing ?st0)
      = ([(?hA, A)], {descriptorHash (anchoredDescriptor A)})"
    using dependency_first_scan[OF mode noDeps distinctHashes dep res ord]
    by (simp add: initState_def)
  define st1 where "st1 = \<lparr>needsProcessing = [(locatorHash (anchoredLocator B), B)],
      processing = {}, commandCount = Suc 0,
      report = rep @ [ReportError UNNAMED failedMessage], tasks = [task]\<rparr>"
  have aw: "awaitAll opts world (?st0\<lparr>processing := {descriptorHash (anchoredDescriptor A)}\<rparr>) [(?hA, A)]
      = (Inr [code], \<lparr>needsProcessing = [(locatorHash (anchoredLocator B), B)],
           processing = {}, commandCount = Suc 0, report = rep, tasks = [task]\<rparr>)"
    using rc oc del
    by (simp add: initState_def Let_def)
  have wb: "whileBody opts world ?st0 = Continue st1"
    unfolding whileBody_def sc using aw mode fails(2)
    by (simp add: st1_def reportError_def initState_def hasErrors_def)
  have br: "whileBody opts world st1 = Break st1"
    by (simp add: whileBody_def st1_def hasErrors_def)
  have "rounds opts world st1 = (None, st1)"
    using br by (subst rounds.simps) (simp add: st1_def)
  then have r: "rounds opts world ?st0 = (None, st1)"
    using wb ne by (subst rounds.simps) simp
  have "exitCode (report st1) \<noteq> 0"
    by (simp add: st1_def exitCode_def hasErrors_def)
  then show ?thesis using wb br r tw oc by (intro exI[of _ st1]) (simp add: st1_def)
qed

text \<open>
  The project of \<open>a\<close> and \<open>b\<close> with \<open>a\<close> exiting with 1: the command returns 1.
\<close>

theorem failed_dependency_stops_before_dependent_witness:
  "(topological (optsAB False) \<or> topologicalDev (optsAB False))
   \<and> dependencies (manifest wsA) = [] \<and> devDependencies (manifest wsA) = []
   \<and> locatorHash (anchoredLocator wsA) \<noteq> locatorHash (anchoredLocator wsB)
   \<and> snd (depOn ''a'') \<in> snd ` set (dependencies (manifest wsB))
   \<and> wsA \<in> set (findWorkspacesByDescriptor (project (worldAB [''a''])) (snd (depOn ''a'')))
   \<and> run (worldAB [''a'']) wsA = Resolved (Some 1) False False
   \<and> (\<exists>st1. rounds (effectiveOptions (optsAB False)) (worldAB [''a''])
                 (initState\<lparr>needsProcessing := seed [] [wsA, wsB]\<rparr>) = (None, st1)
          \<and> map task_workspace (tasks st1) = [wsA]
          \<and> needsProcessing st1 = [(''al-b'', wsB)]
          \<and> action (optsAB False) (worldAB [''a'']) = Returned 1 st1)"
proof -
  have h1: "topological (effectiveOptions (optsAB False))
      \<or> topologicalDev (effectiveOptions (optsAB False))"
    by (simp add: ab_defs fixture_defs)
  have h2: "dependencies (manifest wsA) = []" "devDependencies (manifest wsA) = []"
    by (simp_all add: fixture_defs)
  have h3: "locatorHash (anchoredLocator wsA) \<noteq> locatorHash (anchoredLocator wsB)"
    by (simp add: fixture_defs)
  have h4: "snd (depOn ''a'') \<in> snd ` set (dependencies (manifest wsB))"
    by (simp add: fixture_defs)
  have h5: "wsA \<in> set (findWorkspacesByDescriptor (project (worldAB [''a''])) (snd (depOn ''a'')))"
    by (simp add: ab_defs fixture_defs)
  have h6: "run (worldAB [''a'']) wsA = Resolved (Some 1) False False"
    by (simp add: ab_defs fixture_defs)
  have h7: "(1::int) \<noteq> 0" by simp
  have h8: "[wsA, wsB] = [wsA, wsB] \<or> [wsA, wsB] = [wsB, wsA]" by simp
  from failed_dependency_stops_before_dependent[OF h1 h2 h3 h4 h5 h6 h7 h8]
  obtain st1 where st1:
    "rounds (effectiveOptions (optsAB False)) (worldAB [''a''])
        (initState\<lparr>needsProcessing := seed [] [wsA, wsB]\<rparr>) = (None, st1)"
    "map task_workspace (tasks st1) = [wsA]"
    "needsProcessing st1 = [(locatorHash (anchoredLocator wsB), wsB)]"
    "exitCode (report st1) \<noteq> 0"
    by auto
  have a: "action (optsAB False) (worldAB [''a''])
      = (case None of Some err \<Rightarrow> Threw err st1 | None \<Rightarrow> Returned (exitCode (report st1)) st1)"
  proof (rule action_scheduled[where commandPath = "[''run'']" and args = "[''build'']"
        and descendants = "[wsB]" and workspaces = "[wsA, wsB]"])
    show "all (optsAB False) \<or> cwdWorkspace (worldAB [''a'']) \<noteq> None"
      by (simp add: ab_defs fixture_defs)
    show "parse (worldAB [''a'']) (command (optsAB False) # rest (optsAB False))
        = ([''run''], [''build''])"
      by (simp add: ab_defs fixture_defs)
    show "[''run''] \<noteq> []" by simp
    show "getWorkspaceChildrenRecursive (stackDepth (worldAB [''a'']))
           (if all (optsAB False) then topLevelWorkspace (project (worldAB [''a'']))
            else the (cwdWorkspace (worldAB [''a'']))) (project (worldAB [''a''])) = Some [wsB]"
      by (simp add: ab_defs fixture_defs eval_nat_numeral)
    show "selectLoop (optsAB False) (worldAB [''a'']) (getScriptName [''run''] [''build'']) []
           ((if all (optsAB False) then topLevelWorkspace (project (worldAB [''a'']))
             else the (cwdWorkspace (worldAB [''a'']))) # [wsB]) = Inr [wsA, wsB]"
      by (simp add: ab_defs fixture_defs model_defs)
    show "rounds (effectiveOptions (optsAB False)) (worldAB [''a''])
        (initState\<lparr>needsProcessing := seed [] [wsA, wsB]\<rparr>) = (None, st1)"
      by (rule st1(1))
  qed
  have "exitCode (report st1) = 1" using st1(4) by (simp add: exitCode_def split: if_splits)
  then have "action (optsAB False) (worldAB [''a'']) = Returned 1 st1" using a by simp
  moreover have "locatorHash (anchoredLocator wsB) = ''al-b''" by (simp add: fixture_defs)
  ultimately show ?thesis using h1 h2 h3 h4 h5 h6 st1 by auto
qed

subsection \<open>Sequential rounds\<close>

text \<open>
  Claim C6. With \<open>parallel\<close> off the scan of a round dispatches the first eligible entry
  and nothing else. A round that goes on has run exactly that task and removed exactly
  that entry; the other entries are looked at again by the next round of the loop.
\<close>

theorem sequential_scan_stops_after_first_dispatch:
  assumes "\<not> parallel opts"
  shows "fst (scan opts (project world) (needsProcessing st) (processing st) (needsProcessing st))
           = (case find (eligible opts (project world) (needsProcessing st) (processing st))
                        (needsProcessing st) of
                None \<Rightarrow> [] | Some entry \<Rightarrow> [entry])
       \<and> length (fst (scan opts (project world) (needsProcessing st) (processing st)
                          (needsProcessing st))) \<le> 1
       \<and> (\<forall>st'. whileBody opts world st = Continue st' \<longrightarrow>
             length (tasks st') = Suc (length (tasks st))
             \<and> (\<exists>entry. find (eligible opts (project world) (needsProcessing st) (processing st))
                              (needsProcessing st) = Some entry
                  \<and> needsProcessing st' = Map_delete (needsProcessing st) (fst entry))
             \<and> (needsProcessing st \<noteq> [] \<longrightarrow> rounds opts world st = rounds opts world st'))"
proof -
  let ?scan = "scan opts (project world) (needsProcessing st) (processing st) (needsProcessing st)"
  let ?first = "find (eligible opts (project world) (needsProcessing st) (processing st))
                  (needsProcessing st)"
  have sc: "?scan = (case ?first of None \<Rightarrow> ([], processing st)
      | Some e \<Rightarrow> ([e], insert (descriptorHash (anchoredDescriptor (snd e))) (processing st)))"
    using assms by (rule scan_sequential)
  have one: "fst ?scan = (case ?first of None \<Rightarrow> [] | Some entry \<Rightarrow> [entry])"
    unfolding sc by (simp split: option.splits)
  have le: "length (fst ?scan) \<le> 1" unfolding one by (simp split: option.splits)
  have next_round: "length (tasks st') = Suc (length (tasks st))
      \<and> (\<exists>entry. ?first = Some entry \<and> needsProcessing st' = Map_delete (needsProcessing st) (fst entry))
      \<and> (needsProcessing st \<noteq> [] \<longrightarrow> rounds opts world st = rounds opts world st')"
    if cont: "whileBody opts world st = Continue st'" for st'
  proof -
    obtain cps busy codes st'' where s: "?scan = (cps, busy)" and ne: "cps \<noteq> []"
      and aw: "awaitAll opts world (st\<lparr>processing := busy\<rparr>) cps = (Inr codes, st'')"
      and np: "needsProcessing st' = needsProcessing st''" and tk: "tasks st' = tasks st''"
      using whileBody_Continue[OF cont] by (auto split: if_splits)
    obtain entry where e: "?first = Some entry" and cps: "cps = [entry]"
      using s ne one by (cases ?first) auto
    have "needsProcessing st'' = Map_delete (needsProcessing st) (fst entry)"
      using awaitAll_needsProcessing[OF aw] cps by simp
    moreover obtain new where "tasks st'' = tasks st @ new" "length new = length cps"
      using awaitAll_tasks[OF aw] by auto
    moreover have "needsProcessing st \<noteq> [] \<Longrightarrow> rounds opts world st = rounds opts world st'"
      using cont by (subst rounds.simps) simp
    ultimately show ?thesis using e cps np tk by simp
  qed
  show ?thesis using one le next_round by blast
qed

text \<open>
  The project of \<open>a\<close> and \<open>b\<close> without \<open>parallel\<close>: one task in the first round.
\<close>

theorem sequential_scan_stops_after_first_dispatch_witness:
  "\<not> parallel (optsAB False)
   \<and> fst (scan (optsAB False) (project (worldAB [])) (needsProcessing pendingAB)
             (processing pendingAB) (needsProcessing pendingAB)) = [(''al-a'', wsA)]
   \<and> (\<exists>st'. whileBody (optsAB False) (worldAB []) pendingAB = Continue st'
          \<and> needsProcessing st' = [(''al-b'', wsB)]
          \<and> length (tasks st') = 1)"
proof -
  have h1: "\<not> parallel (optsAB False)"
    by (simp add: ab_defs fixture_defs)
  have h2: "find (eligible (optsAB False) (project (worldAB [])) (needsProcessing pendingAB)
              (processing pendingAB)) (needsProcessing pendingAB) = Some (''al-a'', wsA)"
    by (simp add: eligible_def ab_defs fixture_defs model_defs)
  have h3: "\<exists>st'. whileBody (optsAB False) (worldAB []) pendingAB = Continue st'"
    by (simp add: ab_defs fixture_defs model_defs Let_def)
  have h4: "Map_delete (needsProcessing pendingAB) ''al-a'' = [(''al-b'', wsB)]"
    by (simp add: ab_defs fixture_defs model_defs)
  have h5: "tasks pendingAB = []"
    by (simp add: ab_defs initState_def)
  show ?thesis
    using sequential_scan_stops_after_first_dispatch[OF h1, of "worldAB []" pendingAB]
      h1 h2 h3 h4 h5
    by auto
qed

subsection \<open>Closing the streams\<close>

text \<open>
  Claim C8. Every call of \<open>runCommand\<close> ends and awaits both streams as the last thing
  it does, whether the executor resolves or rejects, and a rejection comes out of
  \<open>runCommand\<close> as the error. In a run of the command every task has closed its streams,
  and if a task threw, the command throws the error of a task that threw; with
  \<open>parallel\<close> off the task that threw is the last task of the run and the error is its
  own. The round in which a task throws runs every task it dispatched, and the loop ends
  with that round.
\<close>

theorem streams_closed_on_every_exit_path:
  "suffix closing (events (fst (runCommand opts world r w i)))
   \<and> (\<forall>msg. run world w = Rejected msg \<longrightarrow>
         outcome (fst (runCommand opts world r w i)) = Inl (ExecutorError msg))
   \<and> (\<forall>t \<in> set (tasks (finalState (action opts world))).
         suffix closing (events t)
         \<and> (\<forall>err. outcome t = Inl err \<longrightarrow>
               (\<exists>thrown. action opts world = Threw thrown (finalState (action opts world))
                  \<and> (\<exists>t' \<in> set (tasks (finalState (action opts world))).
                        outcome t' = Inl thrown))
               \<and> (\<not> parallel opts \<longrightarrow>
                     action opts world = Threw err (finalState (action opts world))
                     \<and> t = last (tasks (finalState (action opts world))))))
   \<and> (needsProcessing st \<noteq> [] \<and> whileBody opts world st = Throw err st' \<longrightarrow>
         rounds opts world st = (Some err, st')
         \<and> length (tasks st') = length (tasks st)
              + length (fst (scan opts (project world) (needsProcessing st) (processing st)
                               (needsProcessing st)))
         \<and> (\<exists>t \<in> set (drop (length (tasks st)) (tasks st')). outcome t = Inl err))"
proof -
  have one: "suffix closing (events (fst (runCommand opts world r w i)))"
    by (simp add: runCommand_events suffix_closing_taskEvents)
  have two: "\<forall>msg. run world w = Rejected msg \<longrightarrow>
         outcome (fst (runCommand opts world r w i)) = Inl (ExecutorError msg)"
    by (simp add: runCommand_outcome)
  have three: "\<forall>t \<in> set (tasks (finalState (action opts world))).
         suffix closing (events t)
         \<and> (\<forall>err. outcome t = Inl err \<longrightarrow>
               (\<exists>thrown. action opts world = Threw thrown (finalState (action opts world))
                  \<and> (\<exists>t' \<in> set (tasks (finalState (action opts world))).
                        outcome t' = Inl thrown))
               \<and> (\<not> parallel opts \<longrightarrow>
                     action opts world = Threw err (finalState (action opts world))
                     \<and> t = last (tasks (finalState (action opts world)))))"
  proof (cases opts world rule: action_cases)
    case (early err)
    then show ?thesis by (simp add: finalState_def initState_def)
  next
    case (scheduled ws res st)
    have "settled (initState\<lparr>needsProcessing := seed [] ws\<rparr>)"
      by (simp add: settled_def initState_def)
    from rounds_streamsClosed[OF this, of "effectiveOptions opts" world]
    have "streamsClosed (effectiveOptions opts) (res, st)" using scheduled(1) by simp
    then show ?thesis using scheduled(2)
      by (cases res) (auto simp: streamsClosed_def finalState_def)
  qed
  have four: "needsProcessing st \<noteq> [] \<and> whileBody opts world st = Throw err st' \<longrightarrow>
         rounds opts world st = (Some err, st')
         \<and> length (tasks st') = length (tasks st)
              + length (fst (scan opts (project world) (needsProcessing st) (processing st)
                               (needsProcessing st)))
         \<and> (\<exists>t \<in> set (drop (length (tasks st)) (tasks st')). outcome t = Inl err)"
    using rounds_Throw by blast
  show ?thesis using one two three four by blast
qed

text \<open>
  The project of \<open>a\<close> and \<open>b\<close> in parallel, where the executor rejects in \<open>a\<close>: \<open>b\<close> runs
  all the same, both tasks close their streams, and the command throws the error of \<open>a\<close>.
\<close>

theorem streams_closed_on_every_exit_path_witness:
  "run (mkWorld projAB (Some wsA) None (rejectFor ''a'')) wsA = Rejected ''spawn failed''
   \<and> needsProcessing pendingAB \<noteq> []
   \<and> (case whileBody (mkOptions ''run'' [''build''] False True False)
               (mkWorld projAB (Some wsA) None (rejectFor ''a'')) pendingAB of
        Throw err st' \<Rightarrow>
          err = ExecutorError ''spawn failed''
          \<and> rounds (mkOptions ''run'' [''build''] False True False)
               (mkWorld projAB (Some wsA) None (rejectFor ''a'')) pendingAB = (Some err, st')
          \<and> length (tasks st') = 2
      | Break st' \<Rightarrow> False | Return st' \<Rightarrow> False | Continue st' \<Rightarrow> False)
   \<and> (case action (mkOptions ''run'' [''build''] False True False)
               (mkWorld projAB (Some wsA) None (rejectFor ''a'')) of
        Threw err st \<Rightarrow>
          err = ExecutorError ''spawn failed''
          \<and> map outcome (tasks st) = [Inl (ExecutorError ''spawn failed''), Inr 0]
          \<and> suffix closing (events (hd (tasks st)))
          \<and> suffix closing (events (last (tasks st)))
      | Returned code st \<Rightarrow> False)
   \<and> \<not> parallel (mkOptions ''run'' [''build''] False False False)
   \<and> (case action (mkOptions ''run'' [''build''] False False False)
               (mkWorld projAB (Some wsA) None (rejectFor ''a'')) of
        Threw err st \<Rightarrow>
          err = ExecutorError ''spawn failed''
          \<and> map outcome (tasks st) = [Inl (ExecutorError ''spawn failed'')]
          \<and> outcome (last (tasks st)) = Inl err
      | Returned code st \<Rightarrow> False)"
proof -
  let ?o = "mkOptions ''run'' [''build''] False True False"
  let ?w = "mkWorld projAB (Some wsA) None (rejectFor ''a'')"
  have r: "run ?w wsA = Rejected ''spawn failed''"
    by code_simp
  have ne: "needsProcessing pendingAB \<noteq> []"
    by code_simp
  have "(case whileBody ?o ?w pendingAB of
        Throw err st' \<Rightarrow> err = ExecutorError ''spawn failed'' \<and> length (tasks st') = 2
      | Break st' \<Rightarrow> False | Return st' \<Rightarrow> False | Continue st' \<Rightarrow> False)"
    by code_simp
  then obtain st' where wb: "whileBody ?o ?w pendingAB = Throw (ExecutorError ''spawn failed'') st'"
    and two: "length (tasks st') = 2"
    by (cases "whileBody ?o ?w pendingAB") auto
  have "(case action ?o ?w of
        Threw err st \<Rightarrow>
          err = ExecutorError ''spawn failed''
          \<and> map outcome (tasks st) = [Inl (ExecutorError ''spawn failed''), Inr 0]
      | Returned code st \<Rightarrow> False)"
    by code_simp
  then obtain st where st: "action ?o ?w = Threw (ExecutorError ''spawn failed'') st"
    "map outcome (tasks st) = [Inl (ExecutorError ''spawn failed''), Inr 0]"
    by (cases "action ?o ?w") auto
  have nonempty: "tasks st \<noteq> []" using st(2) by auto
  note inst = streams_closed_on_every_exit_path[of ?o ?w "[]" wsA 1 pendingAB
      "ExecutorError ''spawn failed''" st']
  have members: "hd (tasks st) \<in> set (tasks (finalState (action ?o ?w)))"
    "last (tasks st) \<in> set (tasks (finalState (action ?o ?w)))"
    using st(1) nonempty by (simp_all add: finalState_def)
  have closed: "suffix closing (events (hd (tasks st)))" "suffix closing (events (last (tasks st)))"
    using inst members by blast+
  have loop: "rounds ?o ?w pendingAB = (Some (ExecutorError ''spawn failed''), st')"
    using inst ne wb by blast
  let ?s = "mkOptions ''run'' [''build''] False False False"
  have np: "\<not> parallel ?s"
    by code_simp
  have "(case action ?s ?w of
        Threw err st \<Rightarrow>
          err = ExecutorError ''spawn failed''
          \<and> map outcome (tasks st) = [Inl (ExecutorError ''spawn failed'')]
      | Returned code st \<Rightarrow> False)"
    by code_simp
  then obtain sq where sq: "action ?s ?w = Threw (ExecutorError ''spawn failed'') sq"
    "map outcome (tasks sq) = [Inl (ExecutorError ''spawn failed'')]"
    by (cases "action ?s ?w") auto
  then obtain t where t: "tasks sq = [t]" "outcome t = Inl (ExecutorError ''spawn failed'')"
    by auto
  have "t \<in> set (tasks (finalState (action ?s ?w)))"
    using sq(1) t(1) by (simp add: finalState_def)
  then have "t = last (tasks (finalState (action ?s ?w)))"
    using streams_closed_on_every_exit_path[of ?s ?w "[]" wsA 1 pendingAB
        "ExecutorError ''spawn failed''" st'] t(2) np
    by blast
  then have sequential: "outcome (last (tasks sq)) = Inl (ExecutorError ''spawn failed'')"
    using sq(1) t by (simp add: finalState_def)
  show ?thesis using r ne wb two loop st closed np sq sequential by simp
qed

subsection \<open>One task per workspace\<close>

text \<open>
  Claim C9. Seeding the pending map from a list of workspaces leaves one entry per locator
  hash, and in every run of the command the tasks that ran have different locator hashes:
  no workspace is run twice.
\<close>

theorem every_workspace_runs_at_most_once:
  "distinct (map fst (seed [] workspaces))
   \<and> fst ` set (seed [] workspaces) = (\<lambda>w. locatorHash (anchoredLocator w)) ` set workspaces
   \<and> distinct (map (\<lambda>t. locatorHash (anchoredLocator (task_workspace t)))
                 (tasks (finalState (action opts world))))"
proof -
  have k: "keyed (seed [] ws)" for ws
    by (rule keyed_seed) (simp add: keyed_def)
  have "distinct (ranHashes (finalState (action opts world)))"
  proof (cases opts world rule: action_cases)
    case (early err)
    then show ?thesis by (simp add: finalState_def ranHashes_def initState_def)
  next
    case (scheduled ws r st)
    have "undisturbed (initState\<lparr>needsProcessing := seed [] ws\<rparr>)"
      using k[of ws] by (simp add: undisturbed_def ranHashes_def initState_def)
    from rounds_ranHashes[OF this, of "effectiveOptions opts" world]
    have "distinct (ranHashes st)" using scheduled(1) by simp
    then show ?thesis using scheduled(2) by (simp add: finalState_def split: option.splits)
  qed
  then show ?thesis using k[of workspaces] keys_seed[of "[]" workspaces]
    by (simp add: keyed_def ranHashes_def)
qed

text \<open>
  A diamond: \<open>r\<close> has the children \<open>p\<close> and \<open>q\<close>, which both have the child \<open>d\<close>. The walk
  lists \<open>d\<close> twice, the pending map holds it once, and it runs once.
\<close>

theorem every_workspace_runs_at_most_once_witness:
  "getWorkspaceChildrenRecursive 8 wsR projDiamond = Some [wsP, wsD, wsQ, wsD]
   \<and> map fst (seed [] [wsR, wsP, wsD, wsQ, wsD]) = [''al-r'', ''al-p'', ''al-d'', ''al-q'']
   \<and> map (\<lambda>t. cwd (task_workspace t))
        (tasks (finalState (action (mkOptions ''run'' [''build''] False False False) worldDiamond)))
       = [''/r'', ''/p'', ''/d'', ''/q'']
   \<and> distinct (map (\<lambda>t. locatorHash (anchoredLocator (task_workspace t)))
        (tasks (finalState (action (mkOptions ''run'' [''build''] False False False) worldDiamond))))"
proof -
  have c: "getWorkspaceChildrenRecursive 8 wsR projDiamond = Some [wsP, wsD, wsQ, wsD]"
    by code_simp
  have s: "map fst (seed [] [wsR, wsP, wsD, wsQ, wsD]) = [''al-r'', ''al-p'', ''al-d'', ''al-q'']"
    by code_simp
  have a: "map (\<lambda>t. cwd (task_workspace t))
        (tasks (finalState (action (mkOptions ''run'' [''build''] False False False) worldDiamond)))
       = [''/r'', ''/p'', ''/d'', ''/q'']"
    by code_simp
  show ?thesis
    using every_workspace_runs_at_most_once[of "[wsR, wsP, wsD, wsQ, wsD]"
        "mkOptions ''run'' [''build''] False False False" worldDiamond] c s a
    by simp
qed

subsection \<open>The guard without a current workspace\<close>

text \<open>
  Claim C10, as far as it holds. With \<open>all\<close> set, no workspace at the current directory
  and the requested script or command equal to \<open>npm_lifecycle_event\<close>, the command throws
  a \<open>TypeError\<close> before anything is scheduled if some candidate gets past the script
  filter; if none does, it returns 0 and schedules nothing.
\<close>

theorem absent_cwdWorkspace_raises_when_guard_is_reached:
  assumes "all opts" and "cwdWorkspace world = None"
    and "parse world (command opts # rest opts) = (commandPath, args)"
    and "commandPath \<noteq> []"
    and "requestedIsTrigger opts world (getScriptName commandPath args)"
    and "getWorkspaceChildrenRecursive (stackDepth world) (topLevelWorkspace (project world))
           (project world) = Some descendants"
  shows "action opts world =
           (if list_ex (\<lambda>w. \<not> lacksScript (getScriptName commandPath args) w)
                 (topLevelWorkspace (project world) # descendants)
            then Threw TypeError initState
            else Returned 0 initState)"
proof -
  have r: "rounds (effectiveOptions opts) world initState = (None, initState)"
    by (subst rounds.simps) (simp add: initState_def)
  have i: "initState\<lparr>needsProcessing := needsProcessing initState\<rparr> = initState"
    "report initState = []"
    by (simp_all add: initState_def)
  note sel = selectLoop_TypeError[OF assms(2,5), of "[]" "topLevelWorkspace (project world) # descendants"]
  show ?thesis
  proof (cases "list_ex (\<lambda>w. \<not> lacksScript (getScriptName commandPath args) w)
                  (topLevelWorkspace (project world) # descendants)")
    case True
    then have "selectLoop opts world (getScriptName commandPath args) []
        (topLevelWorkspace (project world) # descendants) = Inl TypeError"
      using sel by simp
    then show ?thesis using True assms(1,2,3,4,6)
      by (simp add: action_def Let_def del: selectLoop.simps)
  next
    case False
    then have "selectLoop opts world (getScriptName commandPath args) []
        (topLevelWorkspace (project world) # descendants) = Inr []"
      using sel by simp
    then show ?thesis using False assms(1,2,3,4,6) r i
      by (simp add: action_def Let_def StreamReport_start_def effectiveOptions_def
            exitCode_def hasErrors_def del: selectLoop.simps)
  qed
qed

text \<open>
  Run from a \<open>build\<close> script outside every workspace, \<open>run build\<close> throws.
\<close>

theorem absent_cwdWorkspace_raises_when_guard_is_reached_witness:
  "all (mkOptions ''run'' [''build''] True False False)
   \<and> cwdWorkspace (worldOutside ''build'') = None
   \<and> parse (worldOutside ''build'') [''run'', ''build''] = ([''run''], [''build''])
   \<and> requestedIsTrigger (mkOptions ''run'' [''build''] True False False) (worldOutside ''build'')
        (getScriptName [''run''] [''build''])
   \<and> getWorkspaceChildrenRecursive (stackDepth (worldOutside ''build''))
        (topLevelWorkspace (project (worldOutside ''build''))) (project (worldOutside ''build''))
       = Some [wsB]
   \<and> \<not> lacksScript (getScriptName [''run''] [''build'']) wsA
   \<and> action (mkOptions ''run'' [''build''] True False False) (worldOutside ''build'')
       = Threw TypeError initState"
proof -
  let ?o = "mkOptions ''run'' [''build''] True False False"
  let ?w = "worldOutside ''build''"
  have h1: "all ?o" by (simp add: fixture_defs)
  have h2: "cwdWorkspace ?w = None" by (simp add: fixture_defs more_fixture_defs)
  have h3: "parse ?w (command ?o # rest ?o) = ([''run''], [''build''])"
    by (simp add: fixture_defs more_fixture_defs)
  have h4: "[''run''] \<noteq> []" by simp
  have h5: "requestedIsTrigger ?o ?w (getScriptName [''run''] [''build''])"
    by (simp add: requestedIsTrigger_def fixture_defs more_fixture_defs model_defs)
  have h6: "getWorkspaceChildrenRecursive (stackDepth ?w) (topLevelWorkspace (project ?w)) (project ?w)
      = Some [wsB]"
    by (simp add: eval_nat_numeral fixture_defs more_fixture_defs)
  have h7: "\<not> lacksScript (getScriptName [''run''] [''build'']) wsA"
    by (simp add: fixture_defs model_defs)
  have top: "topLevelWorkspace (project ?w) = wsA"
    by (simp add: fixture_defs more_fixture_defs)
  have "action ?o ?w = Threw TypeError initState"
    using absent_cwdWorkspace_raises_when_guard_is_reached[OF h1 h2 h3 h4 h5 h6] h7
    unfolding top by simp
  moreover have "parse ?w [''run'', ''build''] = ([''run''], [''build''])"
    using h3 by (simp add: fixture_defs)
  ultimately show ?thesis using h1 h2 h5 h6 h7 by simp
qed

text \<open>
  Claim C10 as stated fails when no candidate declares the script: \<open>run lint\<close>, run from
  a \<open>lint\<close> script outside every workspace, returns 0, since no workspace has that script.
\<close>

theorem absent_cwdWorkspace_does_not_always_raise_counterexample:
  "all (mkOptions ''run'' [''lint''] True False False)
   \<and> cwdWorkspace (worldOutside ''lint'') = None
   \<and> orElse (getScriptName [''run''] [''lint'']) (command (mkOptions ''run'' [''lint''] True False False))
       = ''lint''
   \<and> npm_lifecycle_event (worldOutside ''lint'') = Some ''lint''
   \<and> action (mkOptions ''run'' [''lint''] True False False) (worldOutside ''lint'')
       = Returned 0 initState"
  by code_simp

end
